theory Spec2Isabelle
  imports Complex_Main "HOL-Library.Sublist" "HOL-Library.Log_Nat"
begin

section \<open>JavaScript strings\<close>

text \<open>
  A JavaScript string is a sequence of UTF-16 code units; \<open>length\<close>, \<open>slice\<close>, indexing and
  the regular expressions of the source (none carries the \<open>u\<close> flag) all work on code units.
  A code unit is modelled by its number.
\<close>

type_synonym jschar = nat
type_synonym jsstring = "jschar list"

definition js :: "string \<Rightarrow> jsstring" where
  "js s = map of_char s"

text \<open>
  The characters matched by \<open>\s\<close> in a regular expression, which are also the characters
  removed by \<open>String.prototype.trim\<close> (WhiteSpace and LineTerminator of ECMAScript).
\<close>

definition is_ws :: "jschar \<Rightarrow> bool" where
  "is_ws c \<longleftrightarrow>
     c = 9 \<or> c = 10 \<or> c = 11 \<or> c = 12 \<or> c = 13 \<or> c = 32 \<or> c = 160 \<or> c = 5760 \<or>
     (8192 \<le> c \<and> c \<le> 8202) \<or> c = 8232 \<or> c = 8233 \<or> c = 8239 \<or> c = 8287 \<or>
     c = 12288 \<or> c = 65279"

definition trim :: "jsstring \<Rightarrow> jsstring" where
  "trim s = rev (dropWhile is_ws (rev (dropWhile is_ws s)))"

text \<open>\<open>s.endsWith(c)\<close> for a one-character string \<open>c\<close>.\<close>

definition endsWith :: "jsstring \<Rightarrow> jschar \<Rightarrow> bool" where
  "endsWith s c \<longleftrightarrow> s \<noteq> [] \<and> last s = c"

text \<open>\<open>s[i]\<close>: \<open>undefined\<close> (here \<open>None\<close>) out of range.\<close>

definition char_at :: "jsstring \<Rightarrow> nat \<Rightarrow> jschar option" where
  "char_at s i = (if i < length s then Some (s ! i) else None)"

section \<open>JavaScript numbers\<close>

text \<open>
  A JavaScript number is a finite IEEE 754 double, modelled by the real number it stands
  for. An arithmetic operation returns the exact result rounded to the nearest double, a
  tie going to the even significand. Overflow and subnormal numbers are not modelled: the
  values computed for the metrics lie between \<open>2 powi - 1022\<close> and \<open>2 powi 1024\<close>, and the
  properties of the bots are order properties that hold on either side of that range.
  Integers below \<open>2 ^ 53\<close> are doubles.

  \<open>expo x\<close> is the binary exponent of a positive \<open>x\<close>, the \<open>e\<close> with
  \<open>2 powi e \<le> x < 2 powi (e + 1)\<close>; a double has 53 significant bits.
\<close>

definition expo :: "real \<Rightarrow> int" where
  "expo x = (if 1 \<le> x then bitlen \<lfloor>x\<rfloor> - 1 else - bitlen (\<lceil>1 / x\<rceil> - 1))"

text \<open>The nearest integer, a tie going to the even one.\<close>

definition round_half_even :: "real \<Rightarrow> int" where
  "round_half_even y =
     (let f = \<lfloor>y\<rfloor>; r = y - of_int f
      in if r < 1 / 2 then f else if 1 / 2 < r then f + 1 else if even f then f else f + 1)"

text \<open>The nearest double.\<close>

definition round64 :: "real \<Rightarrow> real" where
  "round64 x =
     (if x = 0 then 0
      else sgn x * of_int (round_half_even (\<bar>x\<bar> * 2 powi (52 - expo \<bar>x\<bar>)))
             * 2 powi (expo \<bar>x\<bar> - 52))"

text \<open>\<open>a / b\<close> and \<open>a * b\<close> on doubles.\<close>

definition js_div :: "real \<Rightarrow> real \<Rightarrow> real" where
  "js_div a b = round64 (a / b)"

definition js_mul :: "real \<Rightarrow> real \<Rightarrow> real" where
  "js_mul a b = round64 (a * b)"

text \<open>\<open>a + b\<close> and \<open>a - b\<close> on doubles.\<close>

definition js_add :: "real \<Rightarrow> real \<Rightarrow> real" where
  "js_add a b = round64 (a + b)"

definition js_sub :: "real \<Rightarrow> real \<Rightarrow> real" where
  "js_sub a b = round64 (a - b)"

text \<open>A real number is a double when rounding leaves it as it is.\<close>

definition is_double :: "real \<Rightarrow> bool" where
  "is_double x \<longleftrightarrow> round64 x = x"

text \<open>\<open>Math.round\<close>: the nearest integer, a tie going up. It is exact.\<close>

definition math_round :: "real \<Rightarrow> int" where
  "math_round x = \<lfloor>x + 1 / 2\<rfloor>"

text \<open>The unit roundoff of a double.\<close>

definition eps64 :: real where
  "eps64 = 1 / 2 ^ 53"

section \<open>Text normalizer\<close>

text \<open>\<open>.replace(/\r\n/g, '\n')\<close>\<close>

fun replace_crlf :: "jsstring \<Rightarrow> jsstring" where
  "replace_crlf (x # y # xs) =
     (if x = 13 \<and> y = 10 then 10 # replace_crlf xs else x # replace_crlf (y # xs))"
| "replace_crlf xs = xs"

text \<open>\<open>.replace(/c/g, r)\<close> for a single character \<open>c\<close>, and for a character class.\<close>

definition replace_class :: "(jschar \<Rightarrow> bool) \<Rightarrow> jsstring \<Rightarrow> jsstring \<Rightarrow> jsstring" where
  "replace_class P r s = concat (map (\<lambda>x. if P x then r else [x]) s)"

definition replace_char :: "jschar \<Rightarrow> jsstring \<Rightarrow> jsstring \<Rightarrow> jsstring" where
  "replace_char c r s = replace_class (\<lambda>x. x = c) r s"

text \<open>
  \<open>.replace(/\n{3,}/g, '\n\n')\<close>: a maximal run of three or more line feeds becomes two;
  a shorter run is kept.
\<close>

function replace_nl3 :: "jsstring \<Rightarrow> jsstring" where
  "replace_nl3 [] = []"
| "replace_nl3 (x # xs) =
     (if x = 10
      then (let run = takeWhile (\<lambda>c. c = 10) xs; rest = dropWhile (\<lambda>c. c = 10) xs
            in (if length run \<ge> 2 then [10, 10] else 10 # run) @ replace_nl3 rest)
      else x # replace_nl3 xs)"
  by pat_completeness auto
termination
  by (relation "measure length") (auto simp: le_imp_less_Suc length_dropWhile_le)

text \<open>
  \<open>.replace(/[ \t]+/g, ' ')\<close> and \<open>.replace(/\s+/g, ' ')\<close>: every maximal run of characters
  of the class becomes \<open>r\<close>.
\<close>

function collapse_runs :: "(jschar \<Rightarrow> bool) \<Rightarrow> jsstring \<Rightarrow> jsstring \<Rightarrow> jsstring" where
  "collapse_runs P r [] = []"
| "collapse_runs P r (x # xs) =
     (if P x then r @ collapse_runs P r (dropWhile P xs) else x # collapse_runs P r xs)"
  by pat_completeness auto
termination
  by (relation "measure (\<lambda>(P, r, xs). length xs)") (auto simp: le_imp_less_Suc length_dropWhile_le)

text \<open>
  \<open>.replace(/ +\n/g, '\n')\<close>: at a space, the run of spaces from there on matches when a
  line feed follows it, and the match is replaced by the line feed; otherwise nothing matches
  at this position.
\<close>

function replace_spaces_nl :: "jsstring \<Rightarrow> jsstring" where
  "replace_spaces_nl [] = []"
| "replace_spaces_nl (x # xs) =
     (if x = 32
      then (case dropWhile (\<lambda>c. c = 32) xs of
              [] \<Rightarrow> x # replace_spaces_nl xs
            | y # rest \<Rightarrow> if y = 10 then 10 # replace_spaces_nl rest else x # replace_spaces_nl xs)
      else x # replace_spaces_nl xs)"
  by pat_completeness auto
termination
proof (relation "measure length", goal_cases)
  case 1
  show ?case by simp
next
  case (2 x xs)
  then show ?case by simp
next
  case (3 x xs y rest)
  have "length rest < length (dropWhile (\<lambda>c. c = 32) xs)" using 3 by simp
  also have "\<dots> \<le> length xs" by (rule length_dropWhile_le)
  finally show ?case by simp
next
  case (4 x xs y rest)
  then show ?case by simp
next
  case (5 x xs)
  then show ?case by simp
qed

text \<open>\<open>.replace(/\n +/g, '\n')\<close>: the spaces after a line feed are removed.\<close>

function replace_nl_spaces :: "jsstring \<Rightarrow> jsstring" where
  "replace_nl_spaces [] = []"
| "replace_nl_spaces (x # xs) =
     (if x = 10 \<and> xs \<noteq> [] \<and> hd xs = 32
      then 10 # replace_nl_spaces (dropWhile (\<lambda>c. c = 32) xs)
      else x # replace_nl_spaces xs)"
  by pat_completeness auto
termination
  by (relation "measure length") (auto simp: le_imp_less_Suc length_dropWhile_le)

text \<open>
  The first chain of replacements of \<open>cleanText\<close>. In the source the character classes of
  the two quote replacements hold the straight quotes \<open>"\<close> (34) and \<open>'\<close> (39); the ellipsis
  is 8230, the em dash 8212, the en dash 8211.
\<close>

definition basic_cleanup :: "jsstring \<Rightarrow> jsstring" where
  "basic_cleanup t =
     (let text = replace_crlf t;
          text = replace_char 13 [10] text;
          text = replace_nl3 text;
          text = collapse_runs (\<lambda>c. c = 32 \<or> c = 9) [32] text;
          text = replace_spaces_nl text;
          text = replace_nl_spaces text;
          text = replace_class (\<lambda>c. c = 34) [34] text;
          text = replace_class (\<lambda>c. c = 39) [39] text;
          text = replace_char 8230 [46, 46, 46] text;
          text = replace_char 8212 [45, 45] text;
          text = replace_char 8211 [45] text;
          text = replace_char 160 [32] text;
          text = replace_char 8288 [] text;
          text = replace_char 65279 [] text;
          text = trim text
      in collapse_runs is_ws [32] text)"

text \<open>\<open>\w\<close>: a letter, a digit or the underscore.\<close>

definition is_word_char :: "jschar \<Rightarrow> bool" where
  "is_word_char c \<longleftrightarrow> (65 \<le> c \<and> c \<le> 90) \<or> (97 \<le> c \<and> c \<le> 122) \<or> (48 \<le> c \<and> c \<le> 57) \<or> c = 95"

text \<open>The characters \<open>.,!?;:'"()\<close> and \<open>{}[]<>#$%^&*+=|\/~`\<close> of the two classes of the beginner mode.\<close>

definition basic_punctuation :: "jschar list" where
  "basic_punctuation = [46, 44, 33, 63, 59, 58, 39, 34, 40, 41]"

definition special_symbols :: "jschar list" where
  "special_symbols =
     [123, 125, 91, 93, 60, 62, 35, 36, 37, 94, 38, 42, 43, 61, 124, 92, 47, 126, 96]"

definition beginner_cleanup :: "jsstring \<Rightarrow> jsstring" where
  "beginner_cleanup t =
     (let text = replace_class (\<lambda>c. c = 45 \<or> c = 8212 \<or> c = 8211) [32] t;
          text = replace_char 64 [32, 97, 116, 32] text;
          text = filter (\<lambda>c. is_word_char c \<or> is_ws c \<or> c \<in> set basic_punctuation) text;
          text = filter (\<lambda>c. c \<notin> set special_symbols) text;
          text = collapse_runs is_ws [32] text
      in trim text)"

text \<open>\<open>s.lastIndexOf(c)\<close> for a one-character string \<open>c\<close>: \<open>-1\<close> when \<open>c\<close> does not occur.\<close>

definition lastIndexOf :: "jsstring \<Rightarrow> jschar \<Rightarrow> int" where
  "lastIndexOf s c =
     (if c \<in> set s then int (length s) - 1 - int (length (takeWhile (\<lambda>x. x \<noteq> c) (rev s)))
      else - 1)"

text \<open>
  The truncation of \<open>cleanText\<close> for a text longer than \<open>maxLength\<close>. The product
  \<open>options.maxLength * 0.8\<close> is a product of doubles.
\<close>

definition truncate_text :: "nat \<Rightarrow> jsstring \<Rightarrow> jsstring" where
  "truncate_text m text =
     (let truncated = take m text;
          lastSentence = lastIndexOf truncated 46;
          lastQuestion = lastIndexOf truncated 63;
          lastExclamation = lastIndexOf truncated 33;
          lastPunctuation = max (max lastSentence lastQuestion) lastExclamation
      in if real_of_int lastPunctuation > js_mul (real m) (round64 0.8)
         then trim (take (nat (lastPunctuation + 1)) text)
         else (let lastSpace = lastIndexOf truncated 32
               in trim (take (if lastSpace > 0 then nat lastSpace else m) text)))"

text \<open>The options: a missing \<open>maxLength\<close> is \<open>None\<close>; \<open>0\<close> is falsy like a missing one.\<close>

record options =
  beginner :: bool
  maxLength :: "nat option"

definition no_options :: options where
  "no_options = \<lparr>beginner = False, maxLength = None\<rparr>"

definition cleanText :: "jsstring \<Rightarrow> options \<Rightarrow> jsstring" where
  "cleanText t opts =
     (if t = [] then []
      else
        (let text = basic_cleanup t;
             text = (if beginner opts then beginner_cleanup text else text);
             text = (case maxLength opts of
                       None \<Rightarrow> text
                     | Some m \<Rightarrow> if m \<noteq> 0 \<and> length text > m then truncate_text m text else text)
         in text))"

text \<open>
  The text of the race: \<open>cleanText\<close> of the custom or built-in passage, cut to \<open>chunkLen\<close>
  characters; \<open>chunkLen\<close> is 600 and nothing sets it.
\<close>

definition chunkLen :: nat where
  "chunkLen = 600"

definition passage_text :: "jsstring \<Rightarrow> jsstring" where
  "passage_text raw = take chunkLen (cleanText raw no_options)"

section \<open>Passage segmenter\<close>

text \<open>
  \<open>text.split(/\s+/)\<close>: the pieces between the maximal runs of whitespace, an empty piece
  before a leading run and after a trailing one.
\<close>

lemma dropWhile_Cons_shorter:
  "x # xs = dropWhile P s \<Longrightarrow> length (dropWhile Q xs) < length s"
proof -
  assume a: "x # xs = dropWhile P s"
  have "length (dropWhile Q xs) \<le> length xs" by (rule length_dropWhile_le)
  also have "\<dots> < length (dropWhile P s)" using a [symmetric] by simp
  also have "\<dots> \<le> length s" by (rule length_dropWhile_le)
  finally show ?thesis .
qed

function split_ws :: "jsstring \<Rightarrow> jsstring list" where
  "split_ws s =
     (let tok = takeWhile (\<lambda>c. \<not> is_ws c) s; rest = dropWhile (\<lambda>c. \<not> is_ws c) s
      in case rest of [] \<Rightarrow> [tok] | _ # rest' \<Rightarrow> tok # split_ws (dropWhile is_ws rest'))"
  by pat_completeness auto
termination
  by (relation "measure length") (auto intro: dropWhile_Cons_shorter)

declare split_ws.simps [simp del]

text \<open>\<open>words = text.split(/\s+/).filter(word => word.length > 0)\<close>\<close>

definition segment :: "jsstring \<Rightarrow> jsstring list" where
  "segment txt = filter (\<lambda>w. length w > 0) (split_ws txt)"

section \<open>Typing evaluator\<close>

record word_result =
  word :: jsstring
  typed :: jsstring
  correct :: bool
  timestamp :: nat

text \<open>\<open>words[currentWordIndex] || ""\<close>\<close>

definition current_word :: "jsstring list \<Rightarrow> nat \<Rightarrow> jsstring" where
  "current_word ws i = (if i < length ws then ws ! i else [])"

text \<open>
  \<open>wordResults.filter(result => result.correct)
        .reduce((total, result) => total + result.word.length + 1, 0)\<close>
\<close>

definition completedCorrectChars :: "word_result list \<Rightarrow> nat" where
  "completedCorrectChars rs =
     foldl (\<lambda>total result. total + length (word result) + 1) 0 (filter correct rs)"

text \<open>
  The \<open>for\<close> loop of \<open>correctChars\<close>: \<open>i\<close> runs up to the shorter of the two lengths and
  the loop is left at the first position where the characters differ.
\<close>

function currentCorrectChars_loop :: "jsstring \<Rightarrow> jsstring \<Rightarrow> nat \<Rightarrow> nat \<Rightarrow> nat" where
  "currentCorrectChars_loop tw cw i n =
     (if i < min (length tw) (length cw)
      then (if tw ! i = cw ! i then currentCorrectChars_loop tw cw (i + 1) (n + 1) else n)
      else n)"
  by pat_completeness auto
termination
  by (relation "measure (\<lambda>(tw, cw, i, n). min (length tw) (length cw) - i)") auto

declare currentCorrectChars_loop.simps [simp del]

definition correctChars :: "jsstring list \<Rightarrow> nat \<Rightarrow> jsstring \<Rightarrow> word_result list \<Rightarrow> nat" where
  "correctChars ws idx tw rs =
     completedCorrectChars rs + currentCorrectChars_loop tw (current_word ws idx) 0 0"

text \<open>\<open>errors = wordResults.filter(result => !result.correct).length\<close>\<close>

definition errors :: "word_result list \<Rightarrow> nat" where
  "errors rs = length (filter (\<lambda>r. \<not> correct r) rs)"

text \<open>
  The specification's wording of \<open>correctCharsSoFar\<close>: the sum over the completed words
  marked correct of the word length plus one, plus the number of leading characters of the
  buffer that agree with the target word, counted up to the first mismatch.
\<close>

definition matching_prefix_length :: "jsstring \<Rightarrow> jsstring \<Rightarrow> nat" where
  "matching_prefix_length tw cw = length (takeWhile (\<lambda>(a, b). a = b) (zip tw cw))"

definition spec_correctCharsSoFar ::
  "jsstring list \<Rightarrow> nat \<Rightarrow> jsstring \<Rightarrow> word_result list \<Rightarrow> nat" where
  "spec_correctCharsSoFar ws idx tw rs =
     sum_list (map (\<lambda>r. length (word r) + 1) (filter correct rs))
       + matching_prefix_length tw (current_word ws idx)"

section \<open>Metrics\<close>

text \<open>\<open>correctWords = wordResults.filter(result => result.correct).length\<close>\<close>

definition correctWords :: "word_result list \<Rightarrow> nat" where
  "correctWords rs = length (filter correct rs)"

text \<open>\<open>Math.round((correctWords / wordResults.length) * 100)\<close>, 100 for no results.\<close>

definition accuracy :: "word_result list \<Rightarrow> int" where
  "accuracy rs =
     (if length rs = 0 then 100
      else math_round (js_mul (js_div (of_nat (correctWords rs)) (of_nat (length rs))) 100))"

text \<open>
  \<open>calcWPM\<close>: \<open>Math.round(((correctChars / 5) / (elapsedMs / 60000)) * 10) / 10\<close>,
  and 0 when \<open>elapsedMs\<close> is 0. Both arguments are non-negative integers.
\<close>

definition calcWPM :: "nat \<Rightarrow> nat \<Rightarrow> real" where
  "calcWPM c elapsedMs =
     (if elapsedMs = 0 then 0
      else js_div (of_int (math_round
             (js_mul (js_div (js_div (of_nat c) 5) (js_div (of_nat elapsedMs) 60000)) 10))) 10)"

text \<open>
  The specification's wordings: \<open>round(100 * correctWordCount / totalWordResultsCount)\<close>,
  100 for no results, and \<open>round((correctChars / 5) / elapsedMinutes, 1 decimal)\<close>, 0 for
  no elapsed time, both with exact numbers and \<open>Math.round\<close> as the rounding.
\<close>

definition spec_accuracyPercent :: "word_result list \<Rightarrow> int" where
  "spec_accuracyPercent rs =
     (if rs = [] then 100
      else math_round (100 * real (correctWords rs) / real (length rs)))"

definition spec_calcWPM :: "nat \<Rightarrow> nat \<Rightarrow> real" where
  "spec_calcWPM c elapsedMs =
     (if elapsedMs = 0 then 0
      else real_of_int (math_round ((real c / 5) / (real elapsedMs / 60000) * 10)) / 10)"

section \<open>Bot simulator\<close>

text \<open>
  A bot: \<open>bot_id\<close> stands for the random \<open>id\<close>, \<open>bot_name\<close> for the index of the name in
  \<open>BOT_NAMES\<close>; \<open>wpm\<close> and \<open>progress\<close> are doubles.
\<close>

record bot =
  bot_id :: nat
  bot_name :: nat
  wpm :: real
  progress :: real

datatype bot_profile = Chill | Balanced | Speedy | OtherProfile

text \<open>\<open>ranges[profile] || [50, 70]\<close>\<close>

definition ranges :: "bot_profile \<Rightarrow> real \<times> real" where
  "ranges p = (case p of Chill \<Rightarrow> (35, 45) | Balanced \<Rightarrow> (55, 70) | Speedy \<Rightarrow> (85, 110)
                 | OtherProfile \<Rightarrow> (50, 70))"

text \<open>
  \<open>makeBot\<close>: the arguments are the three random draws of one bot, \<open>uid()\<close>, the index
  \<open>Math.floor(Math.random() * BOT_NAMES.length)\<close> and the \<open>Math.random()\<close> of the speed,
  \<open>Math.round(min + Math.random() * (max - min))\<close>.
\<close>

definition makeBot :: "bot_profile \<Rightarrow> nat \<times> nat \<times> real \<Rightarrow> bot" where
  "makeBot p draws =
     (case draws of (u, nm, r) \<Rightarrow>
        (case ranges p of (mn, mx) \<Rightarrow>
           \<lparr>bot_id = u, bot_name = nm,
            wpm = of_int (math_round (js_add mn (js_mul r (js_sub mx mn)))),
            progress = 0\<rparr>))"

text \<open>\<open>Array.from({ length: numBots }, makeBot)\<close>\<close>

definition setupBots :: "bot_profile \<Rightarrow> nat \<Rightarrow> (nat \<Rightarrow> nat \<times> nat \<times> real) \<Rightarrow> bot list" where
  "setupBots p n rnd = map (\<lambda>i. makeBot p (rnd i)) [0..<n]"

text \<open>
  One bot in one run of the interval callback of the bot simulation: \<open>len\<close> is
  \<open>text.length\<close>, \<open>dt\<close> the measured \<open>(now - last) / 1000\<close> and \<open>r\<close> the \<open>Math.random()\<close>
  of the jitter. The literals \<open>0.85\<close> and \<open>0.3\<close> are the doubles nearest to them.
\<close>

definition advance_bot :: "nat \<Rightarrow> real \<Rightarrow> real \<Rightarrow> bot \<Rightarrow> bot" where
  "advance_bot len dt r b =
     (if progress b \<ge> real len then b
      else
        (let cps = js_div (js_mul (wpm b) 5) 60;
             jitter = js_add (round64 0.85) (js_mul r (round64 0.3));
             inc = js_mul (js_mul cps dt) jitter
         in b\<lparr>progress := min (real len) (js_add (progress b) inc)\<rparr>))"

text \<open>The successive values of one bot over a sequence of ticks \<open>(dt, r)\<close>, the first one included.\<close>

fun bot_trace :: "nat \<Rightarrow> bot \<Rightarrow> (real \<times> real) list \<Rightarrow> bot list" where
  "bot_trace len b [] = [b]"
| "bot_trace len b (t # ts) = b # bot_trace len (advance_bot len (fst t) (snd t) b) ts"

section \<open>Race controller\<close>

datatype race_state = Idle | Counting | Running | Finished

text \<open>
  The entry written to the statistics in local storage. Of the source's entry the fields
  \<open>errors\<close>, \<open>length\<close>, \<open>placing\<close> and \<open>opponents\<close> are kept; \<open>id\<close>, \<open>date\<close>, \<open>title\<close>, \<open>wpm\<close>
  and \<open>accuracy\<close> are written beside them and read by nothing below.
\<close>

record stats_entry =
  entry_errors :: nat
  entry_length :: nat
  placing :: nat
  opponents :: "(nat \<times> real) list"

text \<open>The settings of a race: they do not change while the race is on.\<close>

record settings =
  race_text :: jsstring
  strict :: bool
  numBots :: nat
  profile :: bot_profile
  countdown :: int

record race =
  state :: race_state
  count :: int
  currentWordIndex :: nat
  currentTypedWord :: jsstring
  wordResults :: "word_result list"
  startTime :: "nat option"
  endTime :: "nat option"
  bots :: "bot list"
  tick :: nat
  stats :: "stats_entry list"

definition words_of :: "settings \<Rightarrow> jsstring list" where
  "words_of cfg = segment (race_text cfg)"

definition race_correctChars :: "settings \<Rightarrow> race \<Rightarrow> nat" where
  "race_correctChars cfg s =
     correctChars (words_of cfg) (currentWordIndex s) (currentTypedWord s) (wordResults s)"

text \<open>\<open>b.progress >= text.length\<close>\<close>

definition bot_done :: "settings \<Rightarrow> bot \<Rightarrow> bool" where
  "bot_done cfg b \<longleftrightarrow> progress b \<ge> real (length (race_text cfg))"

text \<open>
  \<open>recordResult(humanFinished)\<close>. The function reads \<open>bots\<close>, \<open>errors\<close> and \<open>text\<close> from the
  render in which it was created (\<open>snap\<close>) and the stored history from local storage at the
  time of the call (\<open>s\<close>).
\<close>

definition botsAhead :: "settings \<Rightarrow> race \<Rightarrow> bool \<Rightarrow> nat" where
  "botsAhead cfg snap humanFinished =
     length (filter (\<lambda>b. bot_done cfg b \<and> \<not> humanFinished) (bots snap))"

definition recordResult :: "settings \<Rightarrow> race \<Rightarrow> bool \<Rightarrow> race \<Rightarrow> race" where
  "recordResult cfg snap humanFinished s =
     (let entry = \<lparr>entry_errors = errors (wordResults snap),
                   entry_length = length (race_text cfg),
                   placing = 1 + botsAhead cfg snap humanFinished,
                   opponents = map (\<lambda>b. (bot_name b, wpm b)) (bots snap)\<rparr>
      in s\<lparr>stats := take 25 (entry # stats s)\<rparr>)"

text \<open>The finish detection effect, run after every render.\<close>

definition finish_detection :: "settings \<Rightarrow> nat \<Rightarrow> race \<Rightarrow> race" where
  "finish_detection cfg now s =
     (if state s \<noteq> Running then s
      else
        (let humanDone = (race_correctChars cfg s \<ge> length (race_text cfg));
             anyBotDone = list_ex (bot_done cfg) (bots s)
         in if humanDone \<or> anyBotDone
            then recordResult cfg s humanDone (s\<lparr>endTime := Some now, state := Finished\<rparr>)
            else s))"

text \<open>
  \<open>onType\<close>, with \<open>v\<close> the value of the input element and \<open>now\<close> the clock. The writes to
  \<open>e.target.value\<close> are not modelled: the input element shows \<open>currentTypedWord\<close>.
\<close>

definition onType :: "settings \<Rightarrow> jsstring \<Rightarrow> nat \<Rightarrow> race \<Rightarrow> race" where
  "onType cfg v now s =
     (let s1 = (if (startTime s = None \<or> startTime s = Some 0) \<and> state s = Running
                then s\<lparr>startTime := Some now\<rparr> else s)
      in if endsWith v 32 \<or> endsWith v 9
         then
           (let typedWord = trim (butlast v);
                targetWord = current_word (words_of cfg) (currentWordIndex s)
            in if targetWord \<noteq> []
               then
                 (let result = \<lparr>word = targetWord, typed = typedWord,
                                 correct = (typedWord = targetWord), timestamp = now\<rparr>;
                      s2 = s1\<lparr>wordResults := wordResults s @ [result],
                              currentWordIndex := currentWordIndex s + 1,
                              currentTypedWord := []\<rparr>
                  in if currentWordIndex s + 1 \<ge> length (words_of cfg)
                     then recordResult cfg s True (s2\<lparr>endTime := Some now, state := Finished\<rparr>)
                     else s2)
               else s1)
         else
           (let currentWord = current_word (words_of cfg) (currentWordIndex s)
            in if strict cfg \<and> length v > 0 \<and> Some (last v) \<noteq> char_at currentWord (length v - 1)
               then s1\<lparr>currentTypedWord := butlast v\<rparr>
               else s1\<lparr>currentTypedWord := v\<rparr>))"

text \<open>
  The finish detection effect as React runs it. An effect reads \<open>state\<close>, \<open>correctChars\<close>,
  \<open>bots\<close> and \<open>recordResult\<close> from the render it belongs to (\<open>snap\<close>); it runs after that
  render is committed, and its state updates and its write to local storage go to the
  component as it is then (\<open>s\<close>), which may hold the updates of a callback that ran in
  between. \<open>finish_detection cfg now s\<close> is \<open>finish_effect cfg now s s\<close>.
\<close>

definition finish_effect :: "settings \<Rightarrow> nat \<Rightarrow> race \<Rightarrow> race \<Rightarrow> race" where
  "finish_effect cfg now snap s =
     (if state snap \<noteq> Running then s
      else
        (let humanDone = (race_correctChars cfg snap \<ge> length (race_text cfg));
             anyBotDone = list_ex (bot_done cfg) (bots snap)
         in if humanDone \<or> anyBotDone
            then recordResult cfg snap humanDone (s\<lparr>endTime := Some now, state := Finished\<rparr>)
            else s))"

text \<open>\<open>startRace\<close> and \<open>resetRace\<close>\<close>

definition startRace :: "settings \<Rightarrow> race \<Rightarrow> race" where
  "startRace cfg s =
     s\<lparr>currentWordIndex := 0, currentTypedWord := [], wordResults := [],
       startTime := None, endTime := None, state := Counting, count := countdown cfg\<rparr>"

definition resetRace :: "race \<Rightarrow> race" where
  "resetRace s =
     s\<lparr>currentWordIndex := 0, currentTypedWord := [], wordResults := [],
       startTime := None, endTime := None, bots := [], state := Idle\<rparr>"

text \<open>
  The callback of the countdown interval, \<open>setCount((c) => ...)\<close>: at \<open>c <= 1\<close> it sets up
  the bots, stamps the start time and sets the state to running. Its \<open>clearInterval(id)\<close>
  is in \<open>step\<close>, where the interval is.
\<close>

definition countdown_tick :: "settings \<Rightarrow> nat \<Rightarrow> (nat \<Rightarrow> nat \<times> nat \<times> real) \<Rightarrow> race \<Rightarrow> race" where
  "countdown_tick cfg now rnd s =
     (if count s \<le> 1
      then s\<lparr>bots := setupBots (profile cfg) (numBots cfg) rnd, startTime := Some now,
             state := Running, count := count s - 1\<rparr>
      else s\<lparr>count := count s - 1\<rparr>)"

text \<open>
  The callback of the bot simulation interval: \<open>dt\<close> is the measured \<open>(now - last) / 1000\<close>,
  \<open>rnd i\<close> the draw of bot \<open>i\<close>.
\<close>

definition bots_tick :: "settings \<Rightarrow> real \<Rightarrow> (nat \<Rightarrow> real) \<Rightarrow> race \<Rightarrow> race" where
  "bots_tick cfg dt rnd s =
     s\<lparr>bots := map (\<lambda>(i, b). advance_bot (length (race_text cfg)) dt (rnd i) b)
                   (enumerate 0 (bots s)),
       tick := tick s + 1\<rparr>"

text \<open>
  The component between two events. \<open>view\<close> is the state of the last committed render: the
  event handlers, the interval callbacks and the effects of that render read from it, and
  the page shows it (the input element is disabled unless its \<open>state\<close> is running, the
  start button while \<open>text\<close> is empty). \<open>pending\<close> says that the passive effects of that
  render have not run yet. \<open>effect_state\<close> is the \<open>state\<close> for which the countdown effect and
  the bot simulation effect ran last: \<open>state\<close> is their dependency (the settings do not
  change), so they run again, their cleanup first, only for a render with another \<open>state\<close>.
  \<open>timer\<close> is the interval that exists.
\<close>

datatype timer = NoTimer | CountdownTimer | BotsTimer

record controller =
  view :: race
  pending :: bool
  effect_state :: race_state
  timer :: timer

text \<open>The interval that the effects of a render with the given \<open>state\<close> set up.\<close>

definition timer_of :: "race_state \<Rightarrow> timer" where
  "timer_of st = (case st of Idle \<Rightarrow> NoTimer | Counting \<Rightarrow> CountdownTimer
                    | Running \<Rightarrow> BotsTimer | Finished \<Rightarrow> NoTimer)"

text \<open>
  The pending effects of the committed render, in the order of the source. For a render
  with a new \<open>state\<close> the cleanups clear the interval and the countdown effect or the bot
  simulation effect sets up its own; the countdown effect also calls \<open>setCount(countdown)\<close>.
  Then the finish detection runs. \<open>pending_timers\<close> is what the effects do to the
  intervals, \<open>pending_updates\<close> what they do to the state \<open>s\<close>.
\<close>

definition pending_timers :: "controller \<Rightarrow> controller" where
  "pending_timers c =
     (if pending c \<and> state (view c) \<noteq> effect_state c
      then c\<lparr>effect_state := state (view c), timer := timer_of (state (view c))\<rparr>
      else c)"

definition pending_updates :: "settings \<Rightarrow> nat \<Rightarrow> controller \<Rightarrow> race \<Rightarrow> race" where
  "pending_updates cfg now c s =
     (if \<not> pending c then s
      else finish_effect cfg now (view c)
             (if state (view c) \<noteq> effect_state c \<and> state (view c) = Counting
              then s\<lparr>count := countdown cfg\<rparr> else s))"

text \<open>
  The render that follows a callback, \<open>s\<close> being the state with the updates of the
  callback. React runs the effects of the last render, when they are still pending, before
  it renders again: they run after the callback, from the state of the last render, and
  their updates are rendered with those of the callback. The effects of the new render
  are pending.
\<close>

definition render :: "settings \<Rightarrow> nat \<Rightarrow> controller \<Rightarrow> race \<Rightarrow> controller" where
  "render cfg now c s = (pending_timers c)\<lparr>view := pending_updates cfg now c s, pending := True\<rparr>"

text \<open>
  The events: a click on the start or the reset button, a run of the callback of the
  countdown interval or of the bot simulation interval, a change of the input element, and
  a run of the pending effects by the scheduler. Each carries the clock. The effects of a
  render run at a \<open>RunEffects\<close> event or, at the latest, before the next render: between a
  render and its effects another callback can run.
\<close>

datatype event =
    StartRace nat
  | ResetRace nat
  | CountdownTick nat "nat \<Rightarrow> nat \<times> nat \<times> real"
  | BotsTick nat real "nat \<Rightarrow> real"
  | TypeInput nat jsstring
  | RunEffects nat

fun step :: "settings \<Rightarrow> controller \<Rightarrow> event \<Rightarrow> controller" where
  "step cfg c (StartRace now) =
     (if race_text cfg = [] then c else render cfg now c (startRace cfg (view c)))"
| "step cfg c (ResetRace now) = render cfg now c (resetRace (view c))"
| "step cfg c (CountdownTick now rnd) =
     (if timer c \<noteq> CountdownTimer then c
      else render cfg now
             (c\<lparr>timer := (if count (view c) \<le> 1 then NoTimer else CountdownTimer)\<rparr>)
             (countdown_tick cfg now rnd (view c)))"
| "step cfg c (BotsTick now dt rnd) =
     (if timer c \<noteq> BotsTimer then c else render cfg now c (bots_tick cfg dt rnd (view c)))"
| "step cfg c (TypeInput now v) =
     (if state (view c) \<noteq> Running then c else render cfg now c (onType cfg v now (view c)))"
| "step cfg c (RunEffects now) =
     (if \<not> pending c then c
      else (pending_timers c)\<lparr>view := pending_updates cfg now c (view c),
                               pending := (pending_updates cfg now c (view c) \<noteq> view c)\<rparr>)"

definition run :: "settings \<Rightarrow> controller \<Rightarrow> event list \<Rightarrow> controller" where
  "run cfg c es = foldl (step cfg) c es"



section \<open>Session history\<close>

text \<open>
  The stored history, with \<open>sessions\<close> the summaries (the newest first) and the metadata.
  The summary of the ended session is built by \<open>endSession\<close> from the session alone; the
  history update below takes it as \<open>sessionSummary\<close>.
\<close>

record 'a session_history =
  sessions :: "'a list"
  totalSessions :: "nat option"
  lastCleanup :: "nat option"

definition endSession :: "'a \<Rightarrow> nat \<Rightarrow> 'a session_history \<Rightarrow> 'a session_history" where
  "endSession sessionSummary now history =
     (let updatedSessions = take 15 (sessionSummary # sessions history)
      in \<lparr>sessions = updatedSessions,
          totalSessions = Some ((case totalSessions history of None \<Rightarrow> 0 | Some n \<Rightarrow> n) + 1),
          lastCleanup = Some now\<rparr>)"

section \<open>Auxiliary notions\<close>

text \<open>
  A text is tidy when each of its whitespace characters is a space that no whitespace
  follows: what \<open>.replace(/\s+/g, ' ')\<close> returns.
\<close>

fun tidy :: "jsstring \<Rightarrow> bool" where
  "tidy [] = True"
| "tidy [x] = (is_ws x \<longrightarrow> x = 32)"
| "tidy (x # y # zs) = ((is_ws x \<longrightarrow> x = 32 \<and> \<not> is_ws y) \<and> tidy (y # zs))"

text \<open>
  A normal text is tidy, has no whitespace at either end and holds none of the characters
  that the normalizer replaces by others or removes.
\<close>

definition normal_text :: "jsstring \<Rightarrow> bool" where
  "normal_text b \<longleftrightarrow>
     tidy b \<and> (b = [] \<or> \<not> is_ws (hd b) \<and> \<not> is_ws (last b)) \<and>
     8230 \<notin> set b \<and> 8212 \<notin> set b \<and> 8211 \<notin> set b \<and> 8288 \<notin> set b"

text \<open>What the truncation relies on: no whitespace at the start, spaces the only whitespace.\<close>

definition trimmed_spaced :: "jsstring \<Rightarrow> bool" where
  "trimmed_spaced t \<longleftrightarrow> (t = [] \<or> \<not> is_ws (hd t)) \<and> (\<forall>c\<in>set t. is_ws c \<longrightarrow> c = 32)"

text \<open>
  A result that is a proper prefix of the text \<open>full\<close> ends in the middle of a word when
  its last character and the character of \<open>full\<close> that follows it are both no whitespace.
\<close>

definition ends_mid_word :: "jsstring \<Rightarrow> jsstring \<Rightarrow> bool" where
  "ends_mid_word full res \<longleftrightarrow>
     res \<noteq> [] \<and> length res < length full \<and> \<not> is_ws (last res) \<and> \<not> is_ws (full ! length res)"

text \<open>\<open>words.join(' ')\<close>: the words with one space between two of them.\<close>

fun join_words :: "jsstring list \<Rightarrow> jsstring" where
  "join_words [] = []"
| "join_words [w] = w"
| "join_words (w # v # ws) = w @ 32 # join_words (v # ws)"

text \<open>
  A passage of 100 words of five letters, each followed by a space, and one more word; the
  race on it, and the state in which 99 words are committed correct and the last word of
  the race is typed.
\<close>

definition ten_words :: jsstring where
  "ten_words = js ''abcde abcde abcde abcde abcde abcde abcde abcde abcde abcde ''"

definition long_passage :: jsstring where
  "long_passage =
     ten_words @ ten_words @ ten_words @ ten_words @ ten_words @
     ten_words @ ten_words @ ten_words @ ten_words @ ten_words @ js ''x''"

definition long_race :: settings where
  "long_race = \<lparr>race_text = passage_text long_passage, strict = True, numBots = 2,
                 profile = Balanced, countdown = 3\<rparr>"

definition last_word_typed :: race where
  "last_word_typed =
     \<lparr>state = Running, count = 0, currentWordIndex = 99, currentTypedWord = js ''abcde'',
      wordResults = map (\<lambda>w. \<lparr>word = w, typed = w, correct = True, timestamp = 2\<rparr>)
                      (butlast (words_of long_race)),
      startTime = Some 1, endTime = None, bots = [], tick = 0, stats = []\<rparr>"

definition tenfold :: "'a list \<Rightarrow> 'a list" where
  "tenfold xs = xs @ xs @ xs @ xs @ xs @ xs @ xs @ xs @ xs @ xs"






section \<open>Properties of the double arithmetic\<close>

lemma bitlen_numeral_eval:
  "bitlen 1 = 1"
  "bitlen (numeral (Num.Bit0 k)) = bitlen (numeral k) + 1"
  "bitlen (numeral (Num.Bit1 k)) = bitlen (numeral k) + 1"
  by (subst compute_bitlen, simp)+

lemmas double_eval =
  js_add_def js_sub_def js_mul_def js_div_def round64_def expo_def bitlen_numeral_eval
  round_half_even_def Let_def

lemma expo_bounds:
  assumes "0 < x"
  shows "2 powi expo x \<le> x \<and> x < 2 powi (expo x + 1)"
proof (cases "1 \<le> x")
  case True
  let ?B = "bitlen \<lfloor>x\<rfloor>"
  have pos: "0 < \<lfloor>x\<rfloor>" using True by simp
  have b: "2 ^ nat (?B - 1) \<le> \<lfloor>x\<rfloor>" "\<lfloor>x\<rfloor> < 2 ^ nat ?B"
    using bitlen_bounds [OF pos] by simp_all
  have B1: "1 \<le> ?B" using pos by (simp add: bitlen_alt_def)
  have e: "expo x = ?B - 1" using True by (simp add: expo_def)
  have "(2::real) ^ nat (?B - 1) \<le> x"
    using b(1) by (metis le_floor_iff of_int_numeral of_int_power)
  moreover have "x < (2::real) ^ nat ?B"
    using b(2) by (metis floor_less_iff of_int_numeral of_int_power)
  ultimately show ?thesis
    using B1 by (simp add: e power_int_nonneg_exp)
next
  case False
  let ?c = "\<lceil>1 / x\<rceil>"
  let ?B = "bitlen (?c - 1)"
  have y: "1 < 1 / x" using False assms by simp
  then have c2: "2 \<le> ?c" by (simp add: le_ceiling_iff)
  then have pos: "0 < ?c - 1" by simp
  have b: "2 ^ nat (?B - 1) \<le> ?c - 1" "?c - 1 < 2 ^ nat ?B"
    using bitlen_bounds [OF pos] by simp_all
  have B1: "1 \<le> ?B" using pos by (simp add: bitlen_alt_def)
  have e: "expo x = - ?B" using False by (simp add: expo_def)
  have "?c \<le> 2 ^ nat ?B" using b(2) by simp
  then have "real_of_int ?c \<le> 2 ^ nat ?B"
    by (metis of_int_le_iff of_int_numeral of_int_power)
  then have up: "1 / x \<le> 2 ^ nat ?B"
    using le_of_int_ceiling [of "1 / x"] by linarith
  have "real_of_int (2 ^ nat (?B - 1)) \<le> real_of_int (?c - 1)"
    using b(1) by (simp only: of_int_le_iff)
  moreover have "real_of_int (?c - 1) < 1 / x"
    using ceiling_correct [of "1 / x"] by simp
  ultimately have lo: "2 ^ nat (?B - 1) < 1 / x" by simp
  have p1: "(2::real) powi (- ?B) = 1 / 2 ^ nat ?B"
    using B1 by (simp add: power_int_minus_divide power_int_nonneg_exp)
  have p2: "(2::real) powi (1 - ?B) = 1 / 2 ^ nat (?B - 1)"
  proof -
    have "(2::real) powi (1 - ?B) = 2 powi (- (?B - 1))" by simp
    also have "\<dots> = 1 / 2 ^ nat (?B - 1)"
      using B1 by (simp only: power_int_minus_divide) (simp add: power_int_nonneg_exp)
    finally show ?thesis .
  qed
  have "1 / 2 ^ nat ?B \<le> x"
    using up assms by (simp add: field_simps)
  moreover have "x < 1 / 2 ^ nat (?B - 1)"
    using lo assms by (simp add: field_simps)
  ultimately show ?thesis
    by (simp add: e p1 p2)
qed

lemma round_half_even_near: "\<bar>real_of_int (round_half_even y) - y\<bar> \<le> 1 / 2"
proof -
  have "real_of_int \<lfloor>y\<rfloor> \<le> y" "y < real_of_int \<lfloor>y\<rfloor> + 1"
    by linarith+
  then show ?thesis
    by (auto simp: round_half_even_def Let_def)
qed

lemma round64_rel:
  assumes "0 \<le> x"
  shows "x * (1 - eps64) \<le> round64 x \<and> round64 x \<le> x * (1 + eps64)"
proof (cases "x = 0")
  case True
  then show ?thesis by (simp add: round64_def)
next
  case False
  then have pos: "0 < x" using assms by simp
  define e where "e = expo x"
  define z where "z = x * 2 powi (52 - e)"
  define M where "M = real_of_int (round_half_even z)"
  have r: "round64 x = M * 2 powi (e - 52)"
    using pos by (simp add: round64_def M_def z_def e_def)
  have near: "\<bar>M - z\<bar> \<le> 1 / 2"
    unfolding M_def by (rule round_half_even_near)
  have u: "0 < (2::real) powi (e - 52)" by simp
  have zx: "z * 2 powi (e - 52) = x"
  proof -
    have "(2::real) powi (52 - e) * 2 powi (e - 52) = 2 powi ((52 - e) + (e - 52))"
      by (rule power_int_add [symmetric]) simp
    then show ?thesis by (simp add: z_def mult.assoc)
  qed
  have "\<bar>M * 2 powi (e - 52) - z * 2 powi (e - 52)\<bar> = \<bar>M - z\<bar> * 2 powi (e - 52)"
    using u by (simp add: abs_mult left_diff_distrib [symmetric])
  also have "\<dots> \<le> 1 / 2 * 2 powi (e - 52)"
    using near u by (intro mult_right_mono) simp_all
  finally have d: "\<bar>round64 x - x\<bar> \<le> 1 / 2 * 2 powi (e - 52)"
    by (simp only: r zx)
  have "(2::real) powi (e - 52) = 2 powi e * 2 powi (- 52)"
    using power_int_add [of "2::real" e "- 52"] by simp
  then have "1 / 2 * (2::real) powi (e - 52) = 2 powi e * eps64"
    by (simp add: eps64_def power_int_minus_divide)
  moreover have "2 powi e * eps64 \<le> x * eps64"
    using expo_bounds [OF pos] by (intro mult_right_mono) (simp_all add: e_def eps64_def)
  ultimately have "\<bar>round64 x - x\<bar> \<le> x * eps64"
    using d by simp
  then show ?thesis
    by (simp add: abs_le_iff algebra_simps)
qed

lemma round64_nonneg: "0 \<le> x \<Longrightarrow> 0 \<le> round64 x"
proof -
  assume x: "0 \<le> x"
  have "0 \<le> x * (1 - eps64)" using x by (simp add: eps64_def)
  then show ?thesis using round64_rel [OF x] by linarith
qed

lemma math_round_near:
  fixes N D :: int and m :: real
  assumes D: "0 < D" and near: "\<bar>m - real_of_int N / real_of_int D\<bar> < 1 / (2 * real_of_int D)"
  shows "math_round m = \<lfloor>real_of_int N / real_of_int D + 1 / 2\<rfloor> \<or>
         (2 * (N mod D) = D \<and>
          real_of_int \<lfloor>real_of_int N / real_of_int D + 1 / 2\<rfloor> = real_of_int N / real_of_int D + 1 / 2 \<and>
          math_round m = \<lfloor>real_of_int N / real_of_int D + 1 / 2\<rfloor> - 1)"
proof -
  define k where "k = N div D"
  define r where "r = N mod D"
  define t where "t = real_of_int r / real_of_int D"
  define s where "s = 1 / (2 * real_of_int D)"
  define y where "y = real_of_int N / real_of_int D"
  have r: "0 \<le> r" "r < D" using D by (simp_all add: r_def)
  have Dr: "1 \<le> real_of_int D" using D by simp
  have "N = k * D + r" by (simp add: k_def r_def)
  then have "real_of_int N = real_of_int k * real_of_int D + real_of_int r"
    by (metis of_int_add of_int_mult)
  then have y: "y = real_of_int k + t"
    using D by (simp add: y_def t_def field_simps)
  have s: "0 < s" "s \<le> 1 / 2" using Dr by (simp_all add: s_def field_simps)
  have t: "0 \<le> t" "t < 1" using r D by (simp_all add: t_def)
  have m: "y - s < m" "m < y + s"
    using near by (simp_all add: y_def s_def abs_less_iff)
  have fl: "\<lfloor>v\<rfloor> = j" if "real_of_int j \<le> v" "v < real_of_int j + 1" for v :: real and j :: int
    using that by (rule floor_unique)
  consider (lt) "2 * r < D" | (gt) "D < 2 * r" | (eq) "2 * r = D" by linarith
  then show ?thesis
  proof cases
    case lt
    then have "2 * r + 1 \<le> D" by simp
    then have "real_of_int (2 * r + 1) \<le> real_of_int D" by (simp only: of_int_le_iff)
    then have "2 * real_of_int r + 1 \<le> real_of_int D" by simp
    then have ts: "2 * t + 2 * s \<le> 1"
      using D by (simp add: t_def s_def field_simps)
    have "\<lfloor>y + 1 / 2\<rfloor> = k"
    proof (rule fl)
      show "real_of_int k \<le> y + 1 / 2" using y t by linarith
      show "y + 1 / 2 < real_of_int k + 1" using y ts s by linarith
    qed
    moreover have "\<lfloor>m + 1 / 2\<rfloor> = k"
    proof (rule fl)
      show "real_of_int k \<le> m + 1 / 2" using y t s m by linarith
      show "m + 1 / 2 < real_of_int k + 1" using y ts m by linarith
    qed
    ultimately show ?thesis
      by (simp add: math_round_def y_def)
  next
    case gt
    then have "D + 1 \<le> 2 * r" by simp
    then have "real_of_int (D + 1) \<le> real_of_int (2 * r)" by (simp only: of_int_le_iff)
    then have "real_of_int D + 1 \<le> 2 * real_of_int r" by simp
    then have ts: "1 \<le> 2 * t - 2 * s"
      using D by (simp add: t_def s_def field_simps)
    have "\<lfloor>y + 1 / 2\<rfloor> = k + 1"
    proof (rule fl)
      show "real_of_int (k + 1) \<le> y + 1 / 2" using y ts s by simp
      show "y + 1 / 2 < real_of_int (k + 1) + 1" using y t by simp
    qed
    moreover have "\<lfloor>m + 1 / 2\<rfloor> = k + 1"
    proof (rule fl)
      show "real_of_int (k + 1) \<le> m + 1 / 2" using y ts m by simp
      show "m + 1 / 2 < real_of_int (k + 1) + 1" using y t s m by simp
    qed
    ultimately show ?thesis
      by (simp add: math_round_def y_def)
  next
    case eq
    then have "real_of_int (2 * r) = real_of_int D" by simp
    then have "2 * real_of_int r = real_of_int D" by simp
    then have th: "t = 1 / 2"
      using D by (simp add: t_def field_simps)
    have spec: "\<lfloor>y + 1 / 2\<rfloor> = k + 1"
    proof (rule fl)
      show "real_of_int (k + 1) \<le> y + 1 / 2" using y th by simp
      show "y + 1 / 2 < real_of_int (k + 1) + 1" using y th by simp
    qed
    have "\<lfloor>m + 1 / 2\<rfloor> = k \<or> \<lfloor>m + 1 / 2\<rfloor> = k + 1"
    proof (cases "real_of_int k + 1 \<le> m + 1 / 2")
      case True
      have "\<lfloor>m + 1 / 2\<rfloor> = k + 1"
      proof (rule fl)
        show "real_of_int (k + 1) \<le> m + 1 / 2" using True by simp
        show "m + 1 / 2 < real_of_int (k + 1) + 1" using y th s m by simp
      qed
      then show ?thesis by simp
    next
      case False
      have "\<lfloor>m + 1 / 2\<rfloor> = k"
      proof (rule fl)
        show "real_of_int k \<le> m + 1 / 2" using y th s m by linarith
        show "m + 1 / 2 < real_of_int k + 1" using False by simp
      qed
      then show ?thesis by simp
    qed
    moreover have "real_of_int \<lfloor>y + 1 / 2\<rfloor> = y + 1 / 2"
      using spec y th by simp
    ultimately show ?thesis
      using spec eq by (auto simp: math_round_def y_def r_def)
  qed
qed

lemma eps64_squares:
  "(1 + eps64) * (1 + eps64) \<le> 1 + 3 * eps64" "1 - 3 * eps64 \<le> (1 - eps64) * (1 - eps64)"
  "0 \<le> 1 - eps64" "0 \<le> eps64"
  by (simp_all add: eps64_def)

lemma double_quotient_times:
  assumes Y: "0 \<le> Y" and h: "0 \<le> h" and Yab: "Y = a / b"
  shows "\<bar>js_mul (js_div a b) h - a / b * h\<bar> \<le> 3 * eps64 * (a / b * h)"
proof -
  define q where "q = js_div a b"
  define m where "m = js_mul q h"
  have qb: "Y * (1 - eps64) \<le> q" "q \<le> Y * (1 + eps64)"
    using round64_rel [OF Y] Yab by (simp_all add: q_def js_div_def)
  have q0: "0 \<le> q"
    using qb(1) Y eps64_squares(3) by (meson mult_nonneg_nonneg order_trans)
  have qh: "0 \<le> q * h" using q0 h by simp
  have mb: "q * h * (1 - eps64) \<le> m" "m \<le> q * h * (1 + eps64)"
    using round64_rel [OF qh] by (simp_all add: m_def js_mul_def)
  have "q * h * (1 + eps64) \<le> Y * (1 + eps64) * h * (1 + eps64)"
    using qb(2) h eps64_squares(4) by (intro mult_right_mono) simp_all
  also have "\<dots> = Y * h * ((1 + eps64) * (1 + eps64))" by simp
  also have "\<dots> \<le> Y * h * (1 + 3 * eps64)"
    using Y h eps64_squares(1) by (intro mult_left_mono) simp_all
  finally have up: "m \<le> Y * h * (1 + 3 * eps64)" using mb(2) by simp
  have "Y * h * (1 - 3 * eps64) \<le> Y * h * ((1 - eps64) * (1 - eps64))"
    using Y h eps64_squares(2) by (intro mult_left_mono) simp_all
  also have "\<dots> = Y * (1 - eps64) * h * (1 - eps64)" by simp
  also have "\<dots> \<le> q * h * (1 - eps64)"
    using qb(1) h eps64_squares(3) by (intro mult_right_mono) simp_all
  finally have lo: "Y * h * (1 - 3 * eps64) \<le> m" using mb(1) by simp
  have "\<bar>m - Y * h\<bar> \<le> 3 * eps64 * (Y * h)"
    using up lo by (simp add: abs_le_iff algebra_simps)
  then show ?thesis
    by (simp add: m_def q_def Yab)
qed

lemma powi2_less_imp: "(2::real) powi a < 2 powi b \<Longrightarrow> a < b"
proof (rule ccontr)
  assume l: "(2::real) powi a < 2 powi b" and "\<not> a < b"
  then have "b \<le> a" by simp
  then have "(2::real) powi b \<le> 2 powi a" by (intro power_int_increasing) simp_all
  then show False using l by simp
qed

lemma expo_unique:
  assumes "2 powi k \<le> x" "x < 2 powi (k + 1)"
  shows "expo x = k"
proof -
  have "(0::real) < 2 powi k" by simp
  then have pos: "0 < x" using assms(1) by (rule less_le_trans)
  have b: "2 powi expo x \<le> x" "x < 2 powi (expo x + 1)"
    using expo_bounds [OF pos] by simp_all
  have "(2::real) powi k < 2 powi (expo x + 1)"
    using assms(1) b(2) by (rule le_less_trans)
  then have "k < expo x + 1" by (rule powi2_less_imp)
  moreover have "(2::real) powi expo x < 2 powi (k + 1)"
    using b(1) assms(2) by (rule le_less_trans)
  then have "expo x < k + 1" by (rule powi2_less_imp)
  ultimately show ?thesis by simp
qed

lemma expo_mono:
  assumes "0 < p" "p \<le> x"
  shows "expo p \<le> expo x"
proof -
  have "0 < x" using assms by simp
  then have "x < 2 powi (expo x + 1)" using expo_bounds by blast
  moreover have "2 powi expo p \<le> p" using expo_bounds [OF assms(1)] by blast
  ultimately have "(2::real) powi expo p < 2 powi (expo x + 1)" using assms(2) by linarith
  then have "expo p < expo x + 1" by (rule powi2_less_imp)
  then show ?thesis by simp
qed

lemma round_half_even_of_int: "round_half_even (real_of_int k) = k"
  by (simp add: round_half_even_def)

lemma round_half_even_ge:
  assumes "real_of_int K \<le> y"
  shows "K \<le> round_half_even y"
proof -
  have "K \<le> \<lfloor>y\<rfloor>" using assms by (simp add: le_floor_iff)
  then show ?thesis by (simp add: round_half_even_def Let_def)
qed

lemma round_half_even_le:
  assumes "y \<le> real_of_int K"
  shows "round_half_even y \<le> K"
proof (cases "y = real_of_int K")
  case True
  then show ?thesis by (simp add: round_half_even_of_int)
next
  case False
  then have "y < real_of_int K" using assms by simp
  then have "\<lfloor>y\<rfloor> < K" by (simp add: floor_less_iff)
  then show ?thesis by (simp add: round_half_even_def Let_def)
qed

lemma powi2_cancel: "(2::real) powi (52 - e) * 2 powi (e - 52) = 1"
proof -
  have "(2::real) powi (52 - e) * 2 powi (e - 52) = 2 powi ((52 - e) + (e - 52))"
    by (rule power_int_add [symmetric]) simp
  then show ?thesis by simp
qed

lemma round64_pos:
  assumes "0 < x"
  shows "round64 x = real_of_int (round_half_even (x * 2 powi (52 - expo x))) * 2 powi (expo x - 52)"
  using assms by (simp add: round64_def)

lemma round64_at_least_binade:
  assumes "0 < x"
  shows "2 powi expo x \<le> round64 x"
proof -
  define e where "e = expo x"
  have "2 powi e \<le> x" using expo_bounds [OF assms] by (simp add: e_def)
  then have "2 powi e * 2 powi (52 - e) \<le> x * 2 powi (52 - e)"
    by (intro mult_right_mono) simp_all
  moreover have "(2::real) powi e * 2 powi (52 - e) = 2 powi (e + (52 - e))"
    by (rule power_int_add [symmetric]) simp
  ultimately have "real_of_int (2 ^ 52) \<le> x * 2 powi (52 - e)" by simp
  then have "2 ^ 52 \<le> round_half_even (x * 2 powi (52 - e))"
    by (rule round_half_even_ge)
  then have "real_of_int (2 ^ 52) \<le> real_of_int (round_half_even (x * 2 powi (52 - e)))"
    by (simp only: of_int_le_iff)
  then have le: "real_of_int (2 ^ 52) * 2 powi (e - 52)
      \<le> real_of_int (round_half_even (x * 2 powi (52 - e))) * 2 powi (e - 52)"
    by (intro mult_right_mono) simp_all
  have "(2::real) powi 52 * 2 powi (e - 52) = 2 powi (52 + (e - 52))"
    by (rule power_int_add [symmetric]) simp
  then have "2 powi e = real_of_int (2 ^ 52) * 2 powi (e - 52)" by simp
  also note le
  also have "real_of_int (round_half_even (x * 2 powi (52 - e))) * 2 powi (e - 52) = round64 x"
    unfolding e_def by (rule round64_pos [OF assms, symmetric])
  finally show ?thesis
    unfolding e_def .
qed

lemma round64_ge_double:
  assumes d: "is_double p" and p0: "0 \<le> p" and px: "p \<le> x"
  shows "p \<le> round64 x"
proof (cases "p = 0")
  case True
  then show ?thesis using round64_nonneg [of x] px by simp
next
  case False
  then have p: "0 < p" using p0 by simp
  then have x: "0 < x" using px by simp
  define e where "e = expo x"
  show ?thesis
  proof (cases "expo p = e")
    case True
    define Mp where "Mp = round_half_even (p * 2 powi (52 - e))"
    have "p = real_of_int Mp * 2 powi (e - 52)"
      using d p True by (simp add: is_double_def round64_pos Mp_def)
    then have "p * 2 powi (52 - e) = real_of_int Mp * (2 powi (e - 52) * 2 powi (52 - e))"
      by simp
    then have pm: "p * 2 powi (52 - e) = real_of_int Mp"
      using powi2_cancel [of e] by (simp add: mult.commute)
    have "p * 2 powi (52 - e) \<le> x * 2 powi (52 - e)"
      using px by (intro mult_right_mono) simp_all
    then have "real_of_int Mp \<le> x * 2 powi (52 - e)" by (simp only: pm)
    then have "Mp \<le> round_half_even (x * 2 powi (52 - e))" by (rule round_half_even_ge)
    then have "real_of_int Mp \<le> real_of_int (round_half_even (x * 2 powi (52 - e)))"
      by (simp only: of_int_le_iff)
    then have "real_of_int Mp * 2 powi (e - 52)
        \<le> real_of_int (round_half_even (x * 2 powi (52 - e))) * 2 powi (e - 52)"
      by (intro mult_right_mono) simp_all
    then show ?thesis
      using x \<open>p = real_of_int Mp * 2 powi (e - 52)\<close> by (simp add: round64_pos e_def)
  next
    case False
    then have "expo p < e" using expo_mono [OF p px] by (simp add: e_def)
    then have "expo p + 1 \<le> e" by simp
    then have "(2::real) powi (expo p + 1) \<le> 2 powi e"
      by (intro power_int_increasing) simp_all
    moreover have "p < 2 powi (expo p + 1)" using expo_bounds [OF p] by blast
    moreover have "2 powi e \<le> round64 x"
      unfolding e_def by (rule round64_at_least_binade [OF x])
    ultimately show ?thesis by linarith
  qed
qed

lemma round64_is_double:
  assumes "0 \<le> x"
  shows "is_double (round64 x)"
proof (cases "x = 0")
  case True
  then show ?thesis by (simp add: is_double_def round64_def)
next
  case False
  then have x: "0 < x" using assms by simp
  define e where "e = expo x"
  define z where "z = x * 2 powi (52 - e)"
  define M where "M = round_half_even z"
  have R: "round64 x = real_of_int M * 2 powi (e - 52)"
    using x by (simp add: round64_pos M_def z_def e_def)
  have zb: "real_of_int (2 ^ 52) \<le> z" "z \<le> real_of_int (2 ^ 53)"
  proof -
    have b: "2 powi e \<le> x" "x < 2 powi (e + 1)"
      using expo_bounds [OF x] by (simp_all add: e_def)
    have "2 powi e * 2 powi (52 - e) \<le> x * 2 powi (52 - e)"
      using b(1) by (intro mult_right_mono) simp_all
    moreover have "(2::real) powi e * 2 powi (52 - e) = 2 powi (e + (52 - e))"
      by (rule power_int_add [symmetric]) simp
    ultimately show "real_of_int (2 ^ 52) \<le> z" by (simp add: z_def)
    have "x * 2 powi (52 - e) \<le> 2 powi (e + 1) * 2 powi (52 - e)"
      using b(2) by (intro mult_right_mono) simp_all
    moreover have "(2::real) powi (e + 1) * 2 powi (52 - e) = 2 powi ((e + 1) + (52 - e))"
      by (rule power_int_add [symmetric]) simp
    ultimately show "z \<le> real_of_int (2 ^ 53)" by (simp add: z_def)
  qed
  have Mb: "2 ^ 52 \<le> M" "M \<le> 2 ^ 53"
    unfolding M_def
    by (rule round_half_even_ge [OF zb(1)], rule round_half_even_le [OF zb(2)])
  have u: "(2::real) powi (e - 52) * 2 powi (52 - e) = 1"
    using powi2_cancel [of e] by (simp add: mult.commute)
  have Rpos: "0 < round64 x"
  proof -
    have "(0::real) < 2 powi e" by simp
    also have "\<dots> \<le> round64 x"
      unfolding e_def by (rule round64_at_least_binade [OF x])
    finally show ?thesis .
  qed
  show ?thesis
  proof (cases "M = 2 ^ 53")
    case True
    have "(2::real) powi 53 * 2 powi (e - 52) = 2 powi (53 + (e - 52))"
      by (rule power_int_add [symmetric]) simp
    moreover have "53 + (e - 52) = e + 1" by simp
    ultimately have "(2::real) powi 53 * 2 powi (e - 52) = 2 powi (e + 1)"
      by (simp only:)
    moreover have "real_of_int (2 ^ 53) = 2 powi 53" by simp
    ultimately have Re: "round64 x = 2 powi (e + 1)"
      by (simp only: R True)
    have "(2::real) powi (e + 1) < 2 powi (e + 1 + 1)"
      by (intro power_int_strict_increasing) simp_all
    then have ex: "expo (round64 x) = e + 1"
      unfolding Re by (intro expo_unique) simp_all
    have "(2::real) powi (e + 1) * 2 powi (52 - (e + 1)) = 2 powi ((e + 1) + (52 - (e + 1)))"
      by (rule power_int_add [symmetric]) simp
    moreover have "(e + 1) + (52 - (e + 1)) = 52" by simp
    moreover have "(2::real) powi 52 = real_of_int (2 ^ 52)" by simp
    ultimately have s: "(2::real) powi (e + 1) * 2 powi (52 - (e + 1)) = real_of_int (2 ^ 52)"
      by (simp only:)
    have "(2::real) powi 52 * 2 powi (e + 1 - 52) = 2 powi (52 + (e + 1 - 52))"
      by (rule power_int_add [symmetric]) simp
    moreover have "52 + (e + 1 - 52) = e + 1" by simp
    moreover have "real_of_int (2 ^ 52) = 2 powi 52" by simp
    ultimately have b: "real_of_int (2 ^ 52) * 2 powi (e + 1 - 52) = 2 powi (e + 1)"
      by (simp only:)
    have "round64 (round64 x)
        = real_of_int (round_half_even (round64 x * 2 powi (52 - (e + 1)))) * 2 powi (e + 1 - 52)"
      using round64_pos [OF Rpos] by (simp only: ex)
    also have "\<dots> = real_of_int (round_half_even (real_of_int (2 ^ 52))) * 2 powi (e + 1 - 52)"
      by (simp only: Re s)
    also have "\<dots> = real_of_int (2 ^ 52) * 2 powi (e + 1 - 52)"
      by (simp only: round_half_even_of_int)
    also have "\<dots> = round64 x" by (simp only: b Re)
    finally show ?thesis by (simp only: is_double_def)
  next
    case False
    then have "M < 2 ^ 53" using Mb(2) by simp
    then have "real_of_int M < real_of_int (2 ^ 53)" by (simp only: of_int_less_iff)
    then have "real_of_int M * 2 powi (e - 52) < real_of_int (2 ^ 53) * 2 powi (e - 52)"
      by (intro mult_strict_right_mono) simp_all
    moreover have "(2::real) powi 53 * 2 powi (e - 52) = 2 powi (53 + (e - 52))"
      by (rule power_int_add [symmetric]) simp
    moreover have "53 + (e - 52) = e + 1" by simp
    moreover have "real_of_int (2 ^ 53) = 2 powi 53" by simp
    ultimately have up: "round64 x < 2 powi (e + 1)"
      by (simp only: R)
    have lo: "2 powi e \<le> round64 x"
      unfolding e_def by (rule round64_at_least_binade [OF x])
    have ex: "expo (round64 x) = e"
      using lo up by (rule expo_unique)
    have "round64 x * 2 powi (52 - e) = real_of_int M * (2 powi (e - 52) * 2 powi (52 - e))"
      by (simp add: R)
    then have s: "round64 x * 2 powi (52 - e) = real_of_int M"
      by (simp only: u mult_1_right)
    have "round64 (round64 x)
        = real_of_int (round_half_even (round64 x * 2 powi (52 - e))) * 2 powi (e - 52)"
      using round64_pos [OF Rpos] by (simp only: ex)
    also have "\<dots> = real_of_int (round_half_even (real_of_int M)) * 2 powi (e - 52)"
      by (simp only: s)
    also have "\<dots> = round64 x"
      by (simp only: round_half_even_of_int R)
    finally show ?thesis by (simp only: is_double_def)
  qed
qed

lemma nat_is_double:
  assumes "n < 2 ^ 53"
  shows "is_double (real n)"
proof (cases "n = 0")
  case True
  then show ?thesis by (simp add: is_double_def round64_def)
next
  case False
  then have x: "0 < real n" by simp
  define e where "e = expo (real n)"
  have b: "2 powi e \<le> real n" "real n < 2 powi (e + 1)"
    using expo_bounds [OF x] by (simp_all add: e_def)
  have "real n < real (2 ^ 53)" using assms by (simp only: of_nat_less_iff)
  then have "real n < 2 powi 53" by simp
  then have "(2::real) powi e < 2 powi 53" using b(1) by linarith
  then have e53: "e < 53" by (rule powi2_less_imp)
  have "1 \<le> real n" using False by simp
  then have "(2::real) powi 0 < 2 powi (e + 1)" using b(2) by simp
  then have e0: "0 < e + 1" by (rule powi2_less_imp)
  define k where "k = nat (52 - e)"
  have k: "(2::real) powi (52 - e) = 2 ^ k"
    using e53 by (simp add: k_def power_int_nonneg_exp)
  have "real n * 2 powi (52 - e) = real_of_int (int n * 2 ^ k)"
    by (simp add: k)
  then have "round_half_even (real n * 2 powi (52 - e)) = int n * 2 ^ k"
    by (simp only: round_half_even_of_int)
  then have "round64 (real n) = real_of_int (int n * 2 ^ k) * 2 powi (e - 52)"
    using x by (simp add: round64_pos e_def)
  also have "\<dots> = real n * (2 powi (52 - e) * 2 powi (e - 52))"
    by (simp add: k)
  also have "\<dots> = real n"
    by (simp only: powi2_cancel mult_1_right)
  finally show ?thesis by (simp only: is_double_def)
qed

section \<open>Properties of the text normalizer\<close>

text \<open>The same function by cases on the first character, for evaluation.\<close>

lemma split_ws_Nil: "split_ws [] = [[]]"
  by (subst split_ws.simps) simp

lemma split_ws_Cons:
  "split_ws (c # cs) =
     (if is_ws c then [] # split_ws (dropWhile is_ws cs)
      else (case split_ws cs of [] \<Rightarrow> [[c]] | t # ts \<Rightarrow> (c # t) # ts))"
proof (cases "is_ws c")
  case True
  then show ?thesis by (subst split_ws.simps) simp
next
  case False
  have "split_ws (c # cs) =
      (case dropWhile (\<lambda>c. \<not> is_ws c) cs of [] \<Rightarrow> [c # takeWhile (\<lambda>c. \<not> is_ws c) cs]
       | _ # rest' \<Rightarrow> (c # takeWhile (\<lambda>c. \<not> is_ws c) cs) # split_ws (dropWhile is_ws rest'))"
    using False by (subst split_ws.simps) (simp add: Let_def)
  moreover have "split_ws cs =
      (case dropWhile (\<lambda>c. \<not> is_ws c) cs of [] \<Rightarrow> [takeWhile (\<lambda>c. \<not> is_ws c) cs]
       | _ # rest' \<Rightarrow> takeWhile (\<lambda>c. \<not> is_ws c) cs # split_ws (dropWhile is_ws rest'))"
    by (subst split_ws.simps) (simp add: Let_def)
  ultimately show ?thesis
    using False by (cases "dropWhile (\<lambda>c. \<not> is_ws c) cs") simp_all
qed

text \<open>The recursive functions by cases on the first character, for evaluation and induction.\<close>

declare replace_nl3.simps [simp del] collapse_runs.simps [simp del]
  replace_spaces_nl.simps [simp del] replace_nl_spaces.simps [simp del]

lemma replace_nl3_Nil: "replace_nl3 [] = []"
  by (subst replace_nl3.simps) simp

lemma replace_nl3_Cons:
  "replace_nl3 (x # xs) =
     (if x = 10
      then (if length (takeWhile (\<lambda>c. c = 10) xs) \<ge> 2 then [10, 10] else 10 # takeWhile (\<lambda>c. c = 10) xs)
             @ replace_nl3 (dropWhile (\<lambda>c. c = 10) xs)
      else x # replace_nl3 xs)"
  by (subst replace_nl3.simps) (simp add: Let_def)

lemma collapse_runs_Nil: "collapse_runs P r [] = []"
  by (subst collapse_runs.simps) simp

lemma collapse_runs_Cons:
  "collapse_runs P r (x # xs) =
     (if P x then r @ collapse_runs P r (dropWhile P xs) else x # collapse_runs P r xs)"
  by (subst collapse_runs.simps) simp

lemma replace_spaces_nl_Nil: "replace_spaces_nl [] = []"
  by (subst replace_spaces_nl.simps) simp

lemma replace_spaces_nl_Cons:
  "replace_spaces_nl (x # xs) =
     (if x = 32
      then (case dropWhile (\<lambda>c. c = 32) xs of
              [] \<Rightarrow> x # replace_spaces_nl xs
            | y # rest \<Rightarrow> if y = 10 then 10 # replace_spaces_nl rest else x # replace_spaces_nl xs)
      else x # replace_spaces_nl xs)"
  by (subst replace_spaces_nl.simps) simp

lemma replace_nl_spaces_Nil: "replace_nl_spaces [] = []"
  by (subst replace_nl_spaces.simps) simp

lemma replace_nl_spaces_Cons:
  "replace_nl_spaces (x # xs) =
     (if x = 10 \<and> xs \<noteq> [] \<and> hd xs = 32
      then 10 # replace_nl_spaces (dropWhile (\<lambda>c. c = 32) xs)
      else x # replace_nl_spaces xs)"
  by (subst replace_nl_spaces.simps) simp

lemmas normalizer_eval =
  replace_nl3_Nil replace_nl3_Cons collapse_runs_Nil collapse_runs_Cons
  replace_spaces_nl_Nil replace_spaces_nl_Cons replace_nl_spaces_Nil replace_nl_spaces_Cons
  replace_class_def replace_char_def basic_cleanup_def beginner_cleanup_def trim_def
  is_ws_def is_word_char_def basic_punctuation_def special_symbols_def lastIndexOf_def
  truncate_text_def cleanText_def no_options_def Let_def

lemma tidy_Cons:
  "tidy (x # ys) = ((is_ws x \<longrightarrow> x = 32 \<and> (ys \<noteq> [] \<longrightarrow> \<not> is_ws (hd ys))) \<and> tidy ys)"
  by (cases ys) auto

lemma tidy_ws: "tidy xs \<Longrightarrow> c \<in> set xs \<Longrightarrow> is_ws c \<Longrightarrow> c = 32"
  by (induction xs) (auto simp: tidy_Cons)

lemma is_ws_32: "is_ws 32"
  by (simp add: is_ws_def)

lemma replace_class_id: "(\<forall>x\<in>set s. P x \<longrightarrow> r = [x]) \<Longrightarrow> replace_class P r s = s"
  by (induction s) (auto simp: replace_class_def)

lemma replace_char_id: "c \<notin> set s \<Longrightarrow> replace_char c r s = s"
  by (rule replace_class_id [of s "\<lambda>x. x = c" r, folded replace_char_def]) auto

lemma set_replace_class: "set (replace_class P r s) \<subseteq> {x \<in> set s. \<not> P x} \<union> set r"
  by (induction s) (auto simp: replace_class_def)

lemma replace_char_absent: "z \<notin> set r \<Longrightarrow> z = c \<or> z \<notin> set s \<Longrightarrow> z \<notin> set (replace_char c r s)"
  using set_replace_class [of "\<lambda>x. x = c" r s] by (auto simp: replace_char_def)

lemma replace_crlf_id: "13 \<notin> set xs \<Longrightarrow> replace_crlf xs = xs"
  by (induction xs rule: replace_crlf.induct) auto

lemma replace_nl3_id: "10 \<notin> set xs \<Longrightarrow> replace_nl3 xs = xs"
  by (induction xs) (auto simp: replace_nl3_Nil replace_nl3_Cons)

lemma replace_nl_spaces_id: "10 \<notin> set xs \<Longrightarrow> replace_nl_spaces xs = xs"
  by (induction xs) (auto simp: replace_nl_spaces_Nil replace_nl_spaces_Cons)

lemma replace_spaces_nl_id: "10 \<notin> set xs \<Longrightarrow> replace_spaces_nl xs = xs"
proof (induction xs)
  case Nil
  show ?case by (simp add: replace_spaces_nl_Nil)
next
  case (Cons x xs)
  have IH: "replace_spaces_nl xs = xs" using Cons by simp
  show ?case
  proof (cases "dropWhile (\<lambda>c. c = 32) xs")
    case d: Nil
    show ?thesis by (simp add: replace_spaces_nl_Cons IH d)
  next
    case d: (Cons y rest)
    then have "y \<in> set xs" by (metis list.set_intros(1) set_dropWhileD)
    then have "y \<noteq> 10" using Cons.prems by auto
    then show ?thesis by (simp add: replace_spaces_nl_Cons IH d)
  qed
qed

lemma collapse_runs_id:
  assumes "tidy xs" "\<And>c. P c \<Longrightarrow> is_ws c"
  shows "collapse_runs P [32] xs = xs"
  using assms(1)
proof (induction xs)
  case Nil
  show ?case by (simp add: collapse_runs_Nil)
next
  case (Cons x xs)
  have t: "tidy xs" and h: "is_ws x \<longrightarrow> x = 32 \<and> (xs \<noteq> [] \<longrightarrow> \<not> is_ws (hd xs))"
    using Cons.prems by (simp_all add: tidy_Cons)
  have IH: "collapse_runs P [32] xs = xs" by (rule Cons.IH [OF t])
  show ?case
  proof (cases "P x")
    case True
    then have ws: "is_ws x" by (rule assms(2))
    have "dropWhile P xs = xs"
    proof (cases xs)
      case Nil
      then show ?thesis by simp
    next
      case (Cons y ys)
      then have "\<not> is_ws y" using h ws by simp
      then have "\<not> P y" using assms(2) by blast
      then show ?thesis using Cons by simp
    qed
    then show ?thesis using True ws h IH by (simp add: collapse_runs_Cons)
  next
    case False
    then show ?thesis using IH by (simp add: collapse_runs_Cons)
  qed
qed

lemma collapse_runs_head:
  "xs \<noteq> [] \<Longrightarrow> \<not> P (hd xs) \<Longrightarrow> collapse_runs P r xs = hd xs # collapse_runs P r (tl xs)"
  by (cases xs) (simp_all add: collapse_runs_Cons)

lemma collapse_runs_tidy: "tidy (collapse_runs is_ws [32] xs)"
proof (induction "length xs" arbitrary: xs rule: less_induct)
  case less
  show ?case
  proof (cases xs)
    case Nil
    then show ?thesis by (simp add: collapse_runs_Nil)
  next
    case (Cons x xs')
    show ?thesis
    proof (cases "is_ws x")
      case True
      let ?d = "dropWhile is_ws xs'"
      have "length ?d < length xs" using Cons by (simp add: le_imp_less_Suc length_dropWhile_le)
      then have td: "tidy (collapse_runs is_ws [32] ?d)" by (rule less)
      have "collapse_runs is_ws [32] ?d \<noteq> [] \<longrightarrow> \<not> is_ws (hd (collapse_runs is_ws [32] ?d))"
      proof (cases ?d)
        case d: Nil
        show ?thesis by (simp add: collapse_runs_Nil d)
      next
        case d: (Cons y ys)
        then have "\<not> is_ws y" by (metis hd_dropWhile list.distinct(1) list.sel(1))
        then show ?thesis by (simp add: collapse_runs_Cons d)
      qed
      then show ?thesis
        using Cons True td by (simp add: collapse_runs_Cons tidy_Cons is_ws_32)
    next
      case False
      have "tidy (collapse_runs is_ws [32] xs')" using Cons by (intro less) simp
      then show ?thesis using Cons False by (simp add: collapse_runs_Cons tidy_Cons)
    qed
  qed
qed

lemma set_collapse_runs: "set (collapse_runs P r xs) \<subseteq> set xs \<union> set r"
proof (induction "length xs" arbitrary: xs rule: less_induct)
  case less
  show ?case
  proof (cases xs)
    case Nil
    then show ?thesis by (simp add: collapse_runs_Nil)
  next
    case (Cons x xs')
    have a: "set (collapse_runs P r (dropWhile P xs')) \<subseteq> set (dropWhile P xs') \<union> set r"
      using Cons by (intro less) (simp add: le_imp_less_Suc length_dropWhile_le)
    have b: "set (collapse_runs P r xs') \<subseteq> set xs' \<union> set r"
      using Cons by (intro less) simp
    have c: "set (dropWhile P xs') \<subseteq> set xs'" by (auto dest: set_dropWhileD)
    show ?thesis
      using a b c Cons by (auto simp: collapse_runs_Cons)
  qed
qed

lemma collapse_runs_hd_last:
  assumes "xs \<noteq> []" "\<not> is_ws (hd xs)" "\<not> is_ws (last xs)"
  shows "collapse_runs is_ws [32] xs \<noteq> [] \<and> hd (collapse_runs is_ws [32] xs) = hd xs \<and>
         last (collapse_runs is_ws [32] xs) = last xs"
proof -
  have l: "ys \<noteq> [] \<Longrightarrow> \<not> is_ws (last ys) \<Longrightarrow>
      collapse_runs is_ws [32] ys \<noteq> [] \<and> last (collapse_runs is_ws [32] ys) = last ys" for ys
  proof (induction "length ys" arbitrary: ys rule: less_induct)
    case less
    then obtain y ys' where ys: "ys = y # ys'" by (cases ys) auto
    show ?case
    proof (cases "is_ws y")
      case True
      then have ne: "ys' \<noteq> []" using less.prems ys by auto
      let ?d = "dropWhile is_ws ys'"
      have dne: "?d \<noteq> []" using ne less.prems(2) ys
        by (metis dropWhile_eq_Nil_conv last.simps last_in_set)
      have dl: "last ?d = last ys'" using dne by (metis last_appendR takeWhile_dropWhile_id)
      have "length ?d < length ys" using ys by (simp add: le_imp_less_Suc length_dropWhile_le)
      then have "collapse_runs is_ws [32] ?d \<noteq> [] \<and> last (collapse_runs is_ws [32] ?d) = last ?d"
        using dne dl less.prems(2) ys ne by (intro less) simp_all
      then show ?thesis using ys True dl ne by (simp add: collapse_runs_Cons)
    next
      case False
      show ?thesis
      proof (cases "ys' = []")
        case True
        then show ?thesis using ys False by (simp add: collapse_runs_Cons collapse_runs_Nil)
      next
        case ne: False
        then have "collapse_runs is_ws [32] ys' \<noteq> [] \<and> last (collapse_runs is_ws [32] ys') = last ys'"
          using ys less.prems(2) by (intro less) simp_all
        then show ?thesis using ys False ne by (simp add: collapse_runs_Cons)
      qed
    qed
  qed
  show ?thesis
    using l [OF assms(1,3)] collapse_runs_head [of xs is_ws "[32]", OF assms(1,2)] by simp
qed

lemma trim_Nil: "trim [] = []"
  by (simp add: trim_def)

lemma trim_id:
  assumes "xs \<noteq> []" "\<not> is_ws (hd xs)" "\<not> is_ws (last xs)"
  shows "trim xs = xs"
proof -
  have a: "dropWhile is_ws xs = xs"
    using assms(1,2) by (cases xs) simp_all
  have "dropWhile is_ws (rev xs) = rev xs"
    using assms(1,3) by (cases "rev xs") (simp_all add: last_rev [symmetric] del: last_rev)
  then show ?thesis
    by (simp add: trim_def a)
qed

lemma set_trim: "set (trim xs) \<subseteq> set xs"
proof -
  have "set (dropWhile is_ws (rev (dropWhile is_ws xs))) \<subseteq> set (rev (dropWhile is_ws xs))"
    by (auto dest: set_dropWhileD)
  also have "\<dots> \<subseteq> set xs"
    by (auto dest: set_dropWhileD)
  finally show ?thesis by (simp add: trim_def)
qed

lemma dropWhile_last: "dropWhile P xs \<noteq> [] \<Longrightarrow> last (dropWhile P xs) = last xs"
  by (metis last_appendR takeWhile_dropWhile_id)

lemma trim_ends:
  assumes "trim xs \<noteq> []"
  shows "\<not> is_ws (hd (trim xs)) \<and> \<not> is_ws (last (trim xs))"
proof -
  let ?ys = "dropWhile is_ws xs"
  let ?zs = "dropWhile is_ws (rev ?ys)"
  have zs: "?zs \<noteq> []" using assms by (simp add: trim_def)
  have ys: "?ys \<noteq> []"
  proof
    assume e: "?ys = []"
    have "?zs = []" unfolding e by simp
    with zs show False by simp
  qed
  have "last (trim xs) = hd ?zs" using zs by (simp add: trim_def last_rev)
  moreover have "\<not> is_ws (hd ?zs)" using zs by (rule hd_dropWhile)
  moreover have "hd (trim xs) = last ?zs" using zs by (simp add: trim_def hd_rev)
  moreover have "last ?zs = last (rev ?ys)" using zs by (rule dropWhile_last)
  moreover have "last (rev ?ys) = hd ?ys" using ys by (simp add: last_rev)
  moreover have "\<not> is_ws (hd ?ys)" using ys by (rule hd_dropWhile)
  ultimately show ?thesis by simp
qed

lemma trim_prefix:
  assumes "xs = [] \<or> \<not> is_ws (hd xs)"
  shows "\<exists>w. xs = trim xs @ w \<and> (\<forall>c\<in>set w. is_ws c)"
proof -
  have a: "dropWhile is_ws xs = xs"
    using assms by (cases xs) auto
  have "rev (takeWhile is_ws (rev xs) @ dropWhile is_ws (rev xs)) = xs"
    by (simp only: takeWhile_dropWhile_id rev_rev_ident)
  then have "rev (dropWhile is_ws (rev xs)) @ rev (takeWhile is_ws (rev xs)) = xs"
    by (simp only: rev_append)
  then have "xs = trim xs @ rev (takeWhile is_ws (rev xs))"
    by (simp add: trim_def a)
  moreover have "\<forall>c\<in>set (rev (takeWhile is_ws (rev xs))). is_ws c"
    by (auto dest: set_takeWhileD)
  ultimately show ?thesis by blast
qed

lemma trim_collapse_ends:
  "collapse_runs is_ws [32] (trim u) = [] \<or>
   \<not> is_ws (hd (collapse_runs is_ws [32] (trim u))) \<and>
   \<not> is_ws (last (collapse_runs is_ws [32] (trim u)))"
proof (cases "trim u = []")
  case True
  then show ?thesis by (simp add: collapse_runs_Nil)
next
  case False
  then show ?thesis
    using trim_ends [OF False] collapse_runs_hd_last [of "trim u"] by simp
qed

lemma absent_after_trim_collapse:
  "z \<notin> set u \<Longrightarrow> z \<noteq> 32 \<Longrightarrow> z \<notin> set (collapse_runs is_ws [32] (trim u))"
  using set_collapse_runs [of is_ws "[32]" "trim u"] set_trim [of u] by auto

lemma basic_cleanup_normal: "normal_text (basic_cleanup t)"
proof -
  obtain u where b: "basic_cleanup t = collapse_runs is_ws [32] (trim u)"
    and u: "8230 \<notin> set u" "8212 \<notin> set u" "8211 \<notin> set u" "8288 \<notin> set u"
    by (simp add: basic_cleanup_def Let_def replace_char_absent)
  show ?thesis
    unfolding normal_text_def b
    using collapse_runs_tidy [of "trim u"] trim_collapse_ends [of u] u
    by (simp add: absent_after_trim_collapse)
qed

lemma basic_cleanup_id:
  assumes "normal_text b"
  shows "basic_cleanup b = b"
proof -
  have t: "tidy b" and e: "b = [] \<or> \<not> is_ws (hd b) \<and> \<not> is_ws (last b)"
    and a: "8230 \<notin> set b" "8212 \<notin> set b" "8211 \<notin> set b" "8288 \<notin> set b"
    using assms by (simp_all add: normal_text_def)
  have w: "13 \<notin> set b" "10 \<notin> set b" "160 \<notin> set b" "65279 \<notin> set b"
    using tidy_ws [OF t, of 13] tidy_ws [OF t, of 10] tidy_ws [OF t, of 160] tidy_ws [OF t, of 65279]
    by (auto simp: is_ws_def)
  have tr: "trim b = b"
    using e trim_id [of b] by (cases "b = []") (auto simp: trim_Nil)
  have c1: "collapse_runs (\<lambda>c. c = 32 \<or> c = 9) [32] b = b"
    by (rule collapse_runs_id [OF t]) (auto simp: is_ws_def)
  have c2: "collapse_runs is_ws [32] b = b"
    by (rule collapse_runs_id [OF t])
  have q: "replace_class (\<lambda>c. c = 34) [34] b = b" "replace_class (\<lambda>c. c = 39) [39] b = b"
    by (simp_all add: replace_class_id)
  show ?thesis
    by (simp add: basic_cleanup_def Let_def replace_crlf_id replace_char_id replace_nl3_id
        replace_spaces_nl_id replace_nl_spaces_id w a tr c1 c2 q)
qed

text \<open>
  C3. With no options the normalizer is idempotent: normalizing a normalized text
  changes nothing.
\<close>

theorem cleanText_idempotent:
  "cleanText (cleanText x no_options) no_options = cleanText x no_options"
  by (simp add: cleanText_def no_options_def basic_cleanup_id basic_cleanup_normal)

subsection \<open>Truncation\<close>

lemma lastIndexOf_cases:
  "(c \<notin> set s \<and> lastIndexOf s c = - 1) \<or>
   (c \<in> set s \<and> 0 \<le> lastIndexOf s c \<and> lastIndexOf s c < int (length s) \<and>
    s ! nat (lastIndexOf s c) = c)"
proof (cases "c \<in> set s")
  case False
  then show ?thesis by (simp add: lastIndexOf_def)
next
  case True
  let ?k = "length (takeWhile (\<lambda>x. x \<noteq> c) (rev s))"
  have "?k \<noteq> length (rev s)"
  proof
    assume e: "?k = length (rev s)"
    have "takeWhile (\<lambda>x. x \<noteq> c) (rev s) = take ?k (rev s)"
      by (rule takeWhile_eq_take)
    then have "takeWhile (\<lambda>x. x \<noteq> c) (rev s) = rev s"
      unfolding e by simp
    then have "\<forall>x\<in>set (rev s). x \<noteq> c"
      by (simp only: takeWhile_eq_all_conv)
    then show False using True by auto
  qed
  moreover have "?k \<le> length (rev s)"
    by (rule length_takeWhile_le)
  ultimately have k: "?k < length (rev s)"
    by simp
  then have "\<not> (rev s ! ?k \<noteq> c)"
    by (rule nth_length_takeWhile)
  then have "rev s ! ?k = c" by simp
  moreover have "rev s ! ?k = s ! (length s - Suc ?k)"
    using k by (simp add: rev_nth)
  ultimately have n: "s ! (length s - Suc ?k) = c" by simp
  have l: "lastIndexOf s c = int (length s - Suc ?k)"
    using True k by (simp add: lastIndexOf_def)
  have "0 \<le> int (length s - Suc ?k)" "int (length s - Suc ?k) < int (length s)"
    using k by simp_all
  moreover have "s ! nat (int (length s - Suc ?k)) = c"
    using n by (simp only: nat_int)
  ultimately show ?thesis
    unfolding l using True by blast
qed

lemma basic_cleanup_trimmed_spaced: "trimmed_spaced (basic_cleanup x)"
  using basic_cleanup_normal [of x] tidy_ws [of "basic_cleanup x"]
  by (auto simp: normal_text_def trimmed_spaced_def)

lemma beginner_cleanup_trimmed_spaced: "trimmed_spaced (beginner_cleanup x)"
proof -
  obtain v where b: "beginner_cleanup x = trim (collapse_runs is_ws [32] v)"
    by (simp add: beginner_cleanup_def Let_def)
  have "\<forall>c\<in>set (trim (collapse_runs is_ws [32] v)). is_ws c \<longrightarrow> c = 32"
    using set_trim [of "collapse_runs is_ws [32] v"] tidy_ws [OF collapse_runs_tidy [of v]]
    by blast
  moreover have "trim (collapse_runs is_ws [32] v) = [] \<or>
      \<not> is_ws (hd (trim (collapse_runs is_ws [32] v)))"
    using trim_ends [of "collapse_runs is_ws [32] v"] by blast
  ultimately show ?thesis
    by (simp add: trimmed_spaced_def b)
qed

lemma truncate_text_cases:
  assumes ts: "trimmed_spaced t" and m: "0 < m" "m < length t"
  shows "length (truncate_text m t) \<le> m \<and> prefix (truncate_text m t) t \<and>
         ((truncate_text m t \<noteq> [] \<and> last (truncate_text m t) \<in> {46, 63, 33} \<and>
           js_mul (real m) (round64 0.8) < real (length (truncate_text m t)) - 1) \<or>
          (length (truncate_text m t) < length t \<and> t ! length (truncate_text m t) = 32) \<or>
          (truncate_text m t = take m t \<and> 32 \<notin> set (take m t)))"
proof -
  define tr where "tr = take m t"
  define lp where "lp = max (max (lastIndexOf tr 46) (lastIndexOf tr 63)) (lastIndexOf tr 33)"
  define ls where "ls = lastIndexOf tr 32"
  have ltr: "length tr = m" using m by (simp add: tr_def)
  have nth_tr: "i < m \<Longrightarrow> tr ! i = t ! i" for i by (simp add: tr_def)
  have tne: "t \<noteq> []" using m by auto
  have hd_t: "\<not> is_ws (hd t)" using ts tne by (simp add: trimmed_spaced_def)
  have ws32: "c \<in> set t \<Longrightarrow> is_ws c \<Longrightarrow> c = 32" for c using ts by (simp add: trimmed_spaced_def)
  have unfold: "truncate_text m t =
      (if real_of_int lp > js_mul (real m) (round64 0.8) then trim (take (nat (lp + 1)) t)
       else trim (take (if ls > 0 then nat ls else m) t))"
    by (simp add: truncate_text_def Let_def tr_def lp_def ls_def)
  show ?thesis
  proof (cases "real_of_int lp > js_mul (real m) (round64 0.8)")
    case True
    have "0 \<le> round64 0.8" by (rule round64_nonneg) simp
    then have "0 \<le> real m * round64 0.8" by simp
    then have "0 \<le> js_mul (real m) (round64 0.8)"
      unfolding js_mul_def by (rule round64_nonneg)
    then have "0 < real_of_int lp" using True by linarith
    then have pos: "0 < lp" by simp
    have "lp = lastIndexOf tr 46 \<or> lp = lastIndexOf tr 63 \<or> lp = lastIndexOf tr 33"
      unfolding lp_def max_def by presburger
    then obtain ch where ch: "ch \<in> {46, 63, 33}" "lp = lastIndexOf tr ch"
      by blast
    have lt: "lp < int m" and at: "tr ! nat lp = ch"
      using lastIndexOf_cases [of ch tr] pos ch(2) ltr by auto
    let ?u = "take (nat (lp + 1)) t"
    have len_u: "length ?u = nat lp + 1" using lt m pos by (simp add: nat_add_distrib)
    have une: "?u \<noteq> []" using len_u by auto
    have hd_u: "hd ?u = hd t" using une pos by (simp add: hd_take)
    have "last ?u = ?u ! nat lp" using len_u une by (simp add: last_conv_nth)
    also have "\<dots> = t ! nat lp" using pos by simp
    also have "\<dots> = ch" using at nth_tr [of "nat lp"] lt pos by simp
    finally have last_u: "last ?u = ch" .
    have "\<not> is_ws ch" using ch(1) by (auto simp: is_ws_def)
    then have "trim ?u = ?u" using une hd_u hd_t last_u by (simp add: trim_id)
    then have r: "truncate_text m t = ?u" using True unfold by simp
    have "real (nat lp + 1) - 1 = real_of_int lp"
      using pos by simp
    then have "real (length ?u) - 1 = real_of_int lp"
      by (simp only: len_u)
    then have past: "js_mul (real m) (round64 0.8) < real (length ?u) - 1"
      using True by simp
    have shape: "length ?u \<le> m" "prefix ?u t" "last ?u \<in> {46, 63, 33}"
      using len_u lt last_u ch(1) by (simp_all add: take_is_prefix)
    show ?thesis
      unfolding r using shape une past by blast
  next
    case False
    show ?thesis
    proof (cases "ls > 0")
      case True
      have in_tr: "ls < int m" and at: "tr ! nat ls = 32"
        using lastIndexOf_cases [of 32 tr] True ltr by (auto simp: ls_def)
      then have at_t: "t ! nat ls = 32" using nth_tr [of "nat ls"] True by simp
      let ?u = "take (nat ls) t"
      have len_u: "length ?u = nat ls" using in_tr m by simp
      have une: "?u \<noteq> []" using len_u True by auto
      have hd_u: "\<not> is_ws (hd ?u)" using une True hd_t by (simp add: hd_take)
      obtain w where w: "?u = trim ?u @ w" "\<forall>c\<in>set w. is_ws c"
        using trim_prefix [of ?u] hd_u by blast
      define r' where "r' = trim ?u"
      have uw: "?u = r' @ w" using w(1) by (simp only: r'_def)
      have r: "truncate_text m t = trim ?u" using False True unfold by simp
      have r: "truncate_text m t = r'" using r by (simp only: r'_def)
      have "length (r' @ w) = nat ls" using len_u by (simp only: uw [symmetric])
      then have len_r: "length r' + length w = nat ls" by simp
      have "prefix r' (r' @ w)" by simp
      then have "prefix r' ?u" by (simp only: uw [symmetric])
      then have pre: "prefix r' t"
        using take_is_prefix [of "nat ls" t] by (rule prefix_order.trans)
      have boundary: "t ! length r' = 32"
      proof (cases "w = []")
        case True
        then show ?thesis using len_r at_t by simp
      next
        case ne: False
        then have lt_u: "length r' < nat ls" using len_r by (cases w) simp_all
        have "(r' @ w) ! length r' = hd w"
          using ne by (cases w) simp_all
        then have "?u ! length r' = hd w" by (simp only: uw [symmetric])
        moreover have "?u ! length r' = t ! length r'"
          using lt_u by simp
        moreover have "is_ws (hd w)" using ne w(2) by simp
        moreover have "t ! length r' \<in> set t"
          using lt_u in_tr m by (intro nth_mem) simp
        ultimately show ?thesis using ws32 [of "t ! length r'"] by simp
      qed
      have short: "length r' < m" "length r' < length t"
        using len_r in_tr m by linarith+
      show ?thesis
        unfolding r using short pre boundary by simp
    next
      case nls: False
      have no32: "32 \<notin> set tr"
      proof
        assume "32 \<in> set tr"
        then have "0 \<le> ls" "tr ! nat ls = 32"
          using lastIndexOf_cases [of 32 tr] by (auto simp: ls_def)
        then have "tr ! 0 = 32" using nls by simp
        then have "hd t = 32" using nth_tr [of 0] m tne by (simp add: hd_conv_nth)
        then show False using hd_t by (simp add: is_ws_32)
      qed
      have nows: "\<not> is_ws c" if "c \<in> set tr" for c
      proof
        assume "is_ws c"
        moreover have "c \<in> set t" using that by (auto simp: tr_def dest: in_set_takeD)
        ultimately have "c = 32" by (rule ws32 [rotated])
        then show False using that no32 by simp
      qed
      have trne: "tr \<noteq> []" using ltr m by auto
      have "trim tr = tr"
        using trne nows by (intro trim_id) simp_all
      then have r: "truncate_text m t = tr" using False nls unfold by (simp add: tr_def)
      have "length tr \<le> m" "prefix tr t" using ltr by (simp_all add: tr_def take_is_prefix)
      then show ?thesis
        unfolding r using no32 by (simp add: tr_def)
    qed
  qed
qed

text \<open>
  C2 as stated fails. When the first \<open>maxLength\<close> characters hold no space the cut falls
  at \<open>maxLength\<close> (\<open>lastSpace > 0 ? lastSpace : options.maxLength\<close>), in the middle of
  the word: \<open>abcdefghijklmnop\<close> at 5 gives \<open>abcde\<close>. And a period past 80% of
  \<open>maxLength\<close> is taken for the end of a sentence also inside a token: at 20 the text
  \<open>the value of pi: 3.14159 ok\<close> is cut after \<open>3.\<close>.
\<close>

theorem truncation_splits_a_word_counterexample:
  "cleanText (js ''abcdefghijklmnop'') \<lparr>beginner = False, maxLength = Some 5\<rparr> = js ''abcde'' \<and>
   ends_mid_word (cleanText (js ''abcdefghijklmnop'') \<lparr>beginner = False, maxLength = None\<rparr>)
     (cleanText (js ''abcdefghijklmnop'') \<lparr>beginner = False, maxLength = Some 5\<rparr>) \<and>
   cleanText (js ''the value of pi: 3.14159 ok'') \<lparr>beginner = False, maxLength = Some 20\<rparr>
     = js ''the value of pi: 3.'' \<and>
   ends_mid_word (cleanText (js ''the value of pi: 3.14159 ok'') \<lparr>beginner = False, maxLength = None\<rparr>)
     (cleanText (js ''the value of pi: 3.14159 ok'') \<lparr>beginner = False, maxLength = Some 20\<rparr>)"
  by (simp add: js_def normalizer_eval double_eval ends_mid_word_def is_ws_def)

text \<open>
  C2 (amended). For a positive \<open>maxLength\<close>, the result of the normalizer is never longer
  than \<open>maxLength\<close> and is a prefix of the text normalized without \<open>maxLength\<close>. It is
  that whole text; or it ends with one of \<open>. ? !\<close> at an index above
  \<open>maxLength * 0.8\<close>; or it ends just before a space of that text; or the first
  \<open>maxLength\<close> characters of that text hold no space and it is exactly those characters.
  So it ends in the middle of a word only when it ends with one of \<open>. ? !\<close> or when
  the first \<open>maxLength\<close> characters hold no space.
\<close>

theorem truncation_boundaries:
  assumes "0 < m"
  shows "let full = cleanText x \<lparr>beginner = b, maxLength = None\<rparr>;
             res = cleanText x \<lparr>beginner = b, maxLength = Some m\<rparr>
         in length res \<le> m \<and> prefix res full \<and>
            (res = full \<or>
             (res \<noteq> [] \<and> last res \<in> {46, 63, 33} \<and>
              js_mul (real m) (round64 0.8) < real (length res) - 1) \<or>
             (length res < length full \<and> full ! length res = 32) \<or>
             (res = take m full \<and> m < length full \<and> 32 \<notin> set res)) \<and>
            (ends_mid_word full res \<longrightarrow>
               last res \<in> {46, 63, 33} \<or> (length res = m \<and> 32 \<notin> set res))"
proof (cases "x = []")
  case True
  then show ?thesis by (simp add: cleanText_def ends_mid_word_def)
next
  case False
  define t where "t = (if b then beginner_cleanup (basic_cleanup x) else basic_cleanup x)"
  have ts: "trimmed_spaced t"
    by (simp add: t_def basic_cleanup_trimmed_spaced beginner_cleanup_trimmed_spaced)
  have full: "cleanText x \<lparr>beginner = b, maxLength = None\<rparr> = t"
    using False by (simp add: cleanText_def Let_def t_def)
  have cut: "cleanText x \<lparr>beginner = b, maxLength = Some m\<rparr>
      = (if length t > m then truncate_text m t else t)"
    using False assms by (simp add: cleanText_def Let_def t_def)
  show ?thesis
  proof (cases "length t > m")
    case True
    define r where "r = truncate_text m t"
    have c: "length r \<le> m \<and> prefix r t \<and>
         ((r \<noteq> [] \<and> last r \<in> {46, 63, 33} \<and>
           js_mul (real m) (round64 0.8) < real (length r) - 1) \<or>
          (length r < length t \<and> t ! length r = 32) \<or>
          (r = take m t \<and> 32 \<notin> set (take m t)))"
      unfolding r_def by (rule truncate_text_cases [OF ts assms True])
    have mid: "last r \<in> {46, 63, 33} \<or> (length r = m \<and> 32 \<notin> set r)" if "ends_mid_word t r"
    proof -
      have "\<not> is_ws (t ! length r)" using that by (simp add: ends_mid_word_def)
      then have "t ! length r \<noteq> 32" using is_ws_32 by metis
      then show ?thesis using c True by auto
    qed
    have res: "cleanText x \<lparr>beginner = b, maxLength = Some m\<rparr> = r"
      using True by (simp add: cut r_def)
    show ?thesis
      unfolding Let_def full res using c mid True by auto
  next
    case False
    then show ?thesis
      unfolding Let_def full cut by (simp add: ends_mid_word_def)
  qed
qed

text \<open>
  A text cut at the last space before the limit, and a text whose first word is longer than
  the limit.
\<close>

theorem truncation_boundaries_witness:
  "cleanText (js ''One two three four five six'') \<lparr>beginner = False, maxLength = Some 10\<rparr>
     = js ''One two'' \<and>
   cleanText (js ''One two three four five six'') \<lparr>beginner = False, maxLength = None\<rparr> ! 7 = 32 \<and>
   ends_mid_word (cleanText (js ''unbelievable story'') \<lparr>beginner = False, maxLength = None\<rparr>)
     (cleanText (js ''unbelievable story'') \<lparr>beginner = False, maxLength = Some 6\<rparr>) \<and>
   length (cleanText (js ''unbelievable story'') \<lparr>beginner = False, maxLength = Some 6\<rparr>) = 6 \<and>
   32 \<notin> set (cleanText (js ''unbelievable story'') \<lparr>beginner = False, maxLength = Some 6\<rparr>)"
proof -
  have a: "cleanText (js ''One two three four five six'') \<lparr>beginner = False, maxLength = Some 10\<rparr>
     = js ''One two'' \<and>
   cleanText (js ''One two three four five six'') \<lparr>beginner = False, maxLength = None\<rparr> ! 7 = 32"
    using truncation_boundaries [of 10 "js ''One two three four five six''" False]
    by (simp add: js_def normalizer_eval double_eval)
  have mid: "ends_mid_word (cleanText (js ''unbelievable story'') \<lparr>beginner = False, maxLength = None\<rparr>)
     (cleanText (js ''unbelievable story'') \<lparr>beginner = False, maxLength = Some 6\<rparr>)"
    by (simp add: js_def normalizer_eval double_eval ends_mid_word_def is_ws_def)
  have "last (cleanText (js ''unbelievable story'') \<lparr>beginner = False, maxLength = Some 6\<rparr>)
      \<notin> {46, 63, 33}"
    by (simp add: js_def normalizer_eval double_eval)
  moreover have pos: "0 < (6::nat)" by simp
  ultimately have b: "length (cleanText (js ''unbelievable story'') \<lparr>beginner = False, maxLength = Some 6\<rparr>) = 6 \<and>
   32 \<notin> set (cleanText (js ''unbelievable story'') \<lparr>beginner = False, maxLength = Some 6\<rparr>)"
    using truncation_boundaries [OF pos, where x = "js ''unbelievable story''" and b = False] mid
    unfolding Let_def by blast
  show ?thesis
    using a mid b by blast
qed

section \<open>Properties of the typing evaluator\<close>

lemma foldl_add_length:
  "foldl (\<lambda>total result. total + length (word result) + 1) a rs
     = a + sum_list (map (\<lambda>r. length (word r) + 1) rs)"
  by (induction rs arbitrary: a) simp_all

lemma completedCorrectChars_sum:
  "completedCorrectChars rs = sum_list (map (\<lambda>r. length (word r) + 1) (filter correct rs))"
  unfolding completedCorrectChars_def
  using foldl_add_length [of 0 "filter correct rs"] by simp

lemma loop_matching_prefix:
  "i \<le> length tw \<Longrightarrow> i \<le> length cw \<Longrightarrow>
   currentCorrectChars_loop tw cw i n
     = n + matching_prefix_length (drop i tw) (drop i cw)"
proof (induction tw cw i n rule: currentCorrectChars_loop.induct)
  case (1 tw cw i n)
  show ?case
  proof (cases "i < min (length tw) (length cw)")
    case True
    then have dt: "drop i tw = tw ! i # drop (Suc i) tw" and dc: "drop i cw = cw ! i # drop (Suc i) cw"
      by (simp_all add: Cons_nth_drop_Suc)
    show ?thesis
    proof (cases "tw ! i = cw ! i")
      case eq: True
      have "currentCorrectChars_loop tw cw i n = currentCorrectChars_loop tw cw (i + 1) (n + 1)"
        using True eq by (subst currentCorrectChars_loop.simps) simp
      also have "\<dots> = (n + 1) + matching_prefix_length (drop (i + 1) tw) (drop (i + 1) cw)"
        using "1.IH" [OF True eq] True by simp
      finally show ?thesis
        using eq by (simp add: dt dc matching_prefix_length_def)
    next
      case neq: False
      have "currentCorrectChars_loop tw cw i n = n"
        using True neq by (subst currentCorrectChars_loop.simps) simp
      then show ?thesis
        using neq by (simp add: dt dc matching_prefix_length_def)
    qed
  next
    case False
    then have "drop i tw = [] \<or> drop i cw = []"
      using "1.prems" by auto
    then have "matching_prefix_length (drop i tw) (drop i cw) = 0"
      by (auto simp: matching_prefix_length_def)
    moreover have "currentCorrectChars_loop tw cw i n = n"
      using False by (subst currentCorrectChars_loop.simps) (simp only: if_False)
    ultimately show ?thesis by simp
  qed
qed

lemma currentCorrectChars_loop_eq:
  "currentCorrectChars_loop tw cw 0 0 = matching_prefix_length tw cw"
  using loop_matching_prefix [of 0 tw cw 0] by simp

text \<open>
  C7. In every state of the typing evaluator, \<open>correctChars\<close> as the source computes it
  (the \<open>reduce\<close> over the results marked correct and the \<open>for\<close> loop with its \<open>break\<close>) is
  the sum over the completed words scored correct of word length plus one, plus the number
  of leading characters of the buffer that match the current target word, counted up to the
  first mismatching position.
\<close>

theorem correctChars_refines_spec:
  "correctChars ws idx tw rs = spec_correctCharsSoFar ws idx tw rs"
  by (simp add: correctChars_def spec_correctCharsSoFar_def completedCorrectChars_sum
      currentCorrectChars_loop_eq)

section \<open>Strict mode\<close>

text \<open>
  C5. A keystroke that extends the buffer by one character other than a space or a tab
  emits no word result and leaves the word index alone. In strict mode, when that character
  differs from the character of the target word at that position (or the target word has
  no character there), the buffer is left as it was; when it matches, or when strict mode
  is off, the buffer becomes the new value.
\<close>

theorem onType_strict_policy:
  assumes v: "v = currentTypedWord s @ [c]" and c: "c \<noteq> 32" "c \<noteq> 9"
  shows "wordResults (onType cfg v now s) = wordResults s \<and>
         currentWordIndex (onType cfg v now s) = currentWordIndex s \<and>
         currentTypedWord (onType cfg v now s) =
           (if strict cfg \<and>
               char_at (current_word (words_of cfg) (currentWordIndex s))
                 (length (currentTypedWord s)) \<noteq> Some c
            then currentTypedWord s else v)"
proof -
  have sep: "\<not> (endsWith v 32 \<or> endsWith v 9)"
    using v c by (simp add: endsWith_def)
  have parts: "last v = c" "butlast v = currentTypedWord s"
    "length v - Suc 0 = length (currentTypedWord s)" "v \<noteq> []"
    using v by simp_all
  show ?thesis
    unfolding onType_def Let_def using sep by (auto simp: parts)
qed

text \<open>The scenario of the specification: strict mode, target word "cat", buffer "c", then "x".\<close>

theorem onType_strict_policy_witness:
  "currentTypedWord
     (onType \<lparr>race_text = js ''cat'', strict = True, numBots = 2, profile = Balanced, countdown = 3\<rparr>
        (js ''cx'') 5
        \<lparr>state = Running, count = 0, currentWordIndex = 0, currentTypedWord = js ''c'',
         wordResults = [], startTime = Some 1, endTime = None, bots = [], tick = 0, stats = []\<rparr>)
   = js ''c''"
  using onType_strict_policy
    [of "js ''cx''"
        "\<lparr>state = Running, count = 0, currentWordIndex = 0, currentTypedWord = js ''c'',
          wordResults = [], startTime = Some 1, endTime = None, bots = [], tick = 0, stats = []\<rparr>"
        "of_char CHR ''x''"
        "\<lparr>race_text = js ''cat'', strict = True, numBots = 2, profile = Balanced, countdown = 3\<rparr>"
        5]
  by (simp add: js_def words_of_def segment_def split_ws_Nil split_ws_Cons is_ws_def
      current_word_def char_at_def)

section \<open>Session history is bounded\<close>

text \<open>
  C9. After \<open>endSession\<close> the stored history holds at most 15 summaries and the new summary
  comes first; when 15 were stored, the last (oldest) one is dropped and the other 14 follow
  the new summary; when fewer were stored, all are kept.
\<close>

theorem endSession_history_bounded:
  "length (sessions (endSession x now h)) \<le> 15 \<and>
   hd (sessions (endSession x now h)) = x \<and>
   (length (sessions h) = 15 \<longrightarrow> sessions (endSession x now h) = x # butlast (sessions h)) \<and>
   (length (sessions h) < 15 \<longrightarrow> sessions (endSession x now h) = x # sessions h)"
  by (auto simp: endSession_def Let_def butlast_conv_take)

theorem endSession_history_bounded_witness:
  "sessions (endSession (16::nat) 0
      \<lparr>sessions = [15, 14, 13, 12, 11, 10, 9, 8, 7, 6, 5, 4, 3, 2, 1],
       totalSessions = Some 15, lastCleanup = None\<rparr>)
   = [16, 15, 14, 13, 12, 11, 10, 9, 8, 7, 6, 5, 4, 3, 2]"
  using endSession_history_bounded
    [of "16::nat" 0 "\<lparr>sessions = [15, 14, 13, 12, 11, 10, 9, 8, 7, 6, 5, 4, 3, 2, 1],
       totalSessions = Some 15, lastCleanup = None\<rparr>"]
  by simp

section \<open>Bot progress\<close>

lemma advance_bot_step:
  assumes w: "0 \<le> wpm b" and dt: "0 \<le> dt" and r: "0 \<le> r"
    and p0: "0 \<le> progress b" and pl: "progress b \<le> real len"
    and pd: "is_double (progress b)" and len: "len < 2 ^ 53"
  shows "progress b \<le> progress (advance_bot len dt r b)"
    and "progress (advance_bot len dt r b) \<le> real len"
    and "is_double (progress (advance_bot len dt r b))"
    and "wpm (advance_bot len dt r b) = wpm b"
proof -
  define cps where "cps = js_div (js_mul (wpm b) 5) 60"
  define jitter where "jitter = js_add (round64 0.85) (js_mul r (round64 0.3))"
  define inc where "inc = js_mul (js_mul cps dt) jitter"
  define p' where "p' = min (real len) (js_add (progress b) inc)"
  have adv: "advance_bot len dt r b = (if progress b \<ge> real len then b else b\<lparr>progress := p'\<rparr>)"
    by (simp add: advance_bot_def Let_def cps_def jitter_def inc_def p'_def)
  have "0 \<le> wpm b * 5" using w by simp
  then have "0 \<le> js_mul (wpm b) 5"
    unfolding js_mul_def by (rule round64_nonneg)
  then have "0 \<le> js_mul (wpm b) 5 / 60" by simp
  then have cps0: "0 \<le> cps"
    unfolding cps_def js_div_def by (rule round64_nonneg)
  have lit: "0 \<le> round64 0.85" "0 \<le> round64 0.3"
    by (intro round64_nonneg, simp)+
  have "0 \<le> r * round64 0.3" using r lit(2) by (rule mult_nonneg_nonneg)
  then have "0 \<le> js_mul r (round64 0.3)"
    unfolding js_mul_def by (rule round64_nonneg)
  then have "0 \<le> round64 0.85 + js_mul r (round64 0.3)"
    using lit(1) by simp
  then have j0: "0 \<le> jitter"
    unfolding jitter_def js_add_def by (rule round64_nonneg)
  have "0 \<le> cps * dt" using cps0 dt by (rule mult_nonneg_nonneg)
  then have "0 \<le> js_mul cps dt"
    unfolding js_mul_def by (rule round64_nonneg)
  then have "0 \<le> js_mul cps dt * jitter" using j0 by (rule mult_nonneg_nonneg)
  then have inc0: "0 \<le> inc"
    unfolding inc_def js_mul_def [of "js_mul cps dt" jitter] by (rule round64_nonneg)
  have sum0: "0 \<le> progress b + inc" using p0 inc0 by simp
  have "progress b \<le> progress b + inc" using inc0 by simp
  then have ge: "progress b \<le> js_add (progress b) inc"
    unfolding js_add_def by (rule round64_ge_double [OF pd p0])
  have p'ge: "progress b \<le> p'" using ge pl by (simp add: p'_def)
  have p'le: "p' \<le> real len" by (simp add: p'_def)
  have "is_double (js_add (progress b) inc)"
    unfolding js_add_def by (rule round64_is_double [OF sum0])
  moreover have "is_double (real len)" by (rule nat_is_double [OF len])
  ultimately have p'd: "is_double p'" by (simp add: p'_def min_def)
  show "progress b \<le> progress (advance_bot len dt r b)"
    using p'ge by (simp add: adv)
  show "progress (advance_bot len dt r b) \<le> real len"
    using p'le pl by (simp add: adv)
  show "is_double (progress (advance_bot len dt r b))"
    using p'd pd by (simp add: adv)
  show "wpm (advance_bot len dt r b) = wpm b"
    by (simp add: adv)
qed

lemma bot_trace_invariant:
  assumes "0 \<le> wpm b" "0 \<le> progress b" "progress b \<le> real len" "is_double (progress b)"
    "len < 2 ^ 53" "\<forall>t\<in>set ticks. 0 \<le> fst t \<and> 0 \<le> snd t"
  shows "sorted (map progress (bot_trace len b ticks)) \<and>
         (\<forall>x\<in>set (bot_trace len b ticks). progress b \<le> progress x \<and> progress x \<le> real len)"
  using assms
proof (induction ticks arbitrary: b)
  case Nil
  then show ?case by simp
next
  case (Cons t ts)
  let ?b = "advance_bot len (fst t) (snd t) b"
  have t: "0 \<le> fst t" "0 \<le> snd t" and ts: "\<forall>t\<in>set ts. 0 \<le> fst t \<and> 0 \<le> snd t"
    using Cons.prems(6) by simp_all
  note step = advance_bot_step [OF Cons.prems(1) t Cons.prems(2,3,4,5)]
  have w: "0 \<le> wpm ?b" using step(4) Cons.prems(1) by simp
  have p0: "0 \<le> progress ?b" using step(1) Cons.prems(2) by simp
  have IH: "sorted (map progress (bot_trace len ?b ts)) \<and>
         (\<forall>x\<in>set (bot_trace len ?b ts). progress ?b \<le> progress x \<and> progress x \<le> real len)"
    by (rule Cons.IH [OF w p0 step(2) step(3) Cons.prems(5) ts])
  then show ?case
    using step(1) Cons.prems(3) by force
qed

lemma makeBot_start:
  assumes "0 \<le> r"
  shows "0 \<le> wpm (makeBot p (u, nm, r))" and "progress (makeBot p (u, nm, r)) = 0"
proof -
  obtain mn mx where rg: "ranges p = (mn, mx)" "0 \<le> mn" "mn \<le> mx"
    by (cases p) (simp_all add: ranges_def)
  have "0 \<le> mx - mn" using rg(3) by simp
  then have "0 \<le> js_sub mx mn"
    unfolding js_sub_def by (rule round64_nonneg)
  then have "0 \<le> r * js_sub mx mn" using assms by simp
  then have "0 \<le> js_mul r (js_sub mx mn)"
    unfolding js_mul_def by (rule round64_nonneg)
  then have "0 \<le> mn + js_mul r (js_sub mx mn)" using rg(2) by simp
  then have "0 \<le> js_add mn (js_mul r (js_sub mx mn))"
    unfolding js_add_def by (rule round64_nonneg)
  then have "0 \<le> math_round (js_add mn (js_mul r (js_sub mx mn)))"
    by (simp add: math_round_def)
  then show "0 \<le> wpm (makeBot p (u, nm, r))"
    by (simp add: makeBot_def rg(1))
  show "progress (makeBot p (u, nm, r)) = 0"
    by (simp add: makeBot_def split: prod.splits)
qed

text \<open>
  C4. For a bot with a non-negative speed whose progress is a double between 0 and the
  passage length (every bot made by \<open>makeBot\<close> starts at 0 with a non-negative speed), over
  every sequence of ticks with non-negative delta time and non-negative random draws, the
  progress never decreases from one tick to the next and never exceeds the passage length.
  The passage length is below \<open>2 ^ 53\<close>, as every string length is.
\<close>

theorem bot_progress_monotone_bounded:
  assumes "0 \<le> wpm b" "0 \<le> progress b" "progress b \<le> real len" "is_double (progress b)"
    "len < 2 ^ 53" "\<forall>t\<in>set ticks. 0 \<le> fst t \<and> 0 \<le> snd t"
  shows "sorted (map progress (bot_trace len b ticks)) \<and>
         (\<forall>x\<in>set (bot_trace len b ticks). progress x \<le> real len)"
  using bot_trace_invariant [OF assms] by blast

theorem bot_progress_monotone_bounded_witness:
  "sorted (map progress (bot_trace 20 (makeBot Speedy (0, 0, 1 / 2)) [(1, 1 / 2), (2, 0), (1, 1 / 2)])) \<and>
   list_all (\<lambda>x. progress x \<le> 20)
     (bot_trace 20 (makeBot Speedy (0, 0, 1 / 2)) [(1, 1 / 2), (2, 0), (1, 1 / 2)])"
proof -
  have "0 \<le> wpm (makeBot Speedy (0, 0, 1 / 2))" "progress (makeBot Speedy (0, 0, 1 / 2)) = 0"
    by (rule makeBot_start, simp)+
  moreover have "is_double 0" by (simp add: is_double_def round64_def)
  ultimately show ?thesis
    using bot_progress_monotone_bounded
      [of "makeBot Speedy (0, 0, 1 / 2)" 20 "[(1, 1 / 2), (2, 0), (1, 1 / 2)]"]
    by (simp add: list_all_iff)
qed

section \<open>The placing\<close>

lemma finish_detection_effect: "finish_detection cfg now s = finish_effect cfg now s s"
  by (simp add: finish_detection_def finish_effect_def)








text \<open>
  In the controller: when the effects of a render are run by the scheduler, the finish
  detection sees the component as that render left it; when a change of the input element
  comes first, \<open>onType\<close> runs from that render and the finish detection of the same
  render runs after it.
\<close>

lemma step_RunEffects_view:
  assumes "pending c" "state (view c) = effect_state c"
  shows "view (step cfg c (RunEffects now)) = finish_detection cfg now (view c)"
  using assms by (simp add: pending_timers_def pending_updates_def finish_detection_effect)

lemma step_TypeInput_view:
  assumes "state (view c) = Running" "pending c" "effect_state c = Running"
  shows "view (step cfg c (TypeInput now v)) = finish_effect cfg now (view c) (onType cfg v now (view c))"
  using assms by (simp add: render_def pending_timers_def pending_updates_def)

subsection \<open>Bots at the passage length before the final word is committed\<close>











subsection \<open>The placing of every record\<close>



section \<open>The final word typed without a separator\<close>

lemma length_join_words:
  "ws \<noteq> [] \<Longrightarrow> length (join_words ws) + 1 = sum_list (map (\<lambda>w. length w + 1) ws)"
  by (induction ws rule: join_words.induct) simp_all

lemma matching_prefix_length_same: "matching_prefix_length w w = length w"
  by (induction w) (simp_all add: matching_prefix_length_def)

lemma sum_butlast_last:
  "ws \<noteq> [] \<Longrightarrow>
   sum_list (map (\<lambda>w. length w + 1) ws)
     = sum_list (map (\<lambda>w. length w + 1) (butlast ws)) + length (last ws) + 1"
  by (induction ws) auto

lemma final_word_typed_correctChars:
  assumes ne: "words_of cfg \<noteq> []"
    and joined: "race_text cfg = join_words (words_of cfg)"
    and idx: "currentWordIndex s = length (words_of cfg) - 1"
    and res: "map word (wordResults s) = butlast (words_of cfg)" "list_all correct (wordResults s)"
    and buf: "currentTypedWord s = last (words_of cfg)"
  shows "race_correctChars cfg s = length (race_text cfg)"
proof -
  let ?ws = "words_of cfg"
  have cur: "current_word ?ws (currentWordIndex s) = last ?ws"
    using ne idx by (simp add: current_word_def last_conv_nth)
  have "filter correct (wordResults s) = wordResults s"
    using res(2) by (simp add: list_all_iff)
  then have "completedCorrectChars (wordResults s)
      = sum_list (map (\<lambda>r. length (word r) + 1) (wordResults s))"
    by (simp add: completedCorrectChars_sum)
  also have "\<dots> = sum_list (map (\<lambda>w. length w + 1) (map word (wordResults s)))"
    by (simp add: comp_def)
  also have "\<dots> = sum_list (map (\<lambda>w. length w + 1) (butlast ?ws))"
    by (simp only: res(1))
  finally have completed: "completedCorrectChars (wordResults s)
      = sum_list (map (\<lambda>w. length w + 1) (butlast ?ws))" .
  have "race_correctChars cfg s
      = sum_list (map (\<lambda>w. length w + 1) (butlast ?ws)) + length (last ?ws)"
    by (simp add: race_correctChars_def correctChars_def completed cur buf
        currentCorrectChars_loop_eq matching_prefix_length_same)
  then show ?thesis
    using length_join_words [OF ne] sum_butlast_last [OF ne] joined by simp
qed

text \<open>
  C10 (amended). When the text of the race is its words joined by single spaces, all words
  before the last are committed correct and the buffer is the whole last word, then
  \<open>correctChars\<close> is the length of the text, the finish detection effect ends the race
  with the human as finished (placing 1), and the word results hold one entry less than
  the passage has words.
\<close>

theorem final_word_without_separator_finishes:
  assumes "words_of cfg \<noteq> []"
    and "race_text cfg = join_words (words_of cfg)"
    and "state s = Running"
    and "currentWordIndex s = length (words_of cfg) - 1"
    and "map word (wordResults s) = butlast (words_of cfg)" "list_all correct (wordResults s)"
    and "currentTypedWord s = last (words_of cfg)"
  shows "race_correctChars cfg s = length (race_text cfg) \<and>
         state (finish_detection cfg now s) = Finished \<and>
         placing (hd (stats (finish_detection cfg now s))) = 1 \<and>
         wordResults (finish_detection cfg now s) = wordResults s \<and>
         length (wordResults (finish_detection cfg now s)) + 1 = length (words_of cfg)"
proof -
  have cc: "race_correctChars cfg s = length (race_text cfg)"
    by (rule final_word_typed_correctChars [OF assms(1,2,4,5,6,7)])
  have "length (wordResults s) = length (butlast (words_of cfg))"
    using assms(5) by (metis length_map)
  then have n: "length (wordResults s) + 1 = length (words_of cfg)"
    using assms(1) by simp
  show ?thesis
    using cc n assms(3)
    by (simp add: finish_detection_def Let_def recordResult_def botsAhead_def)
qed

theorem final_word_without_separator_finishes_witness:
  "state (finish_detection
       \<lparr>race_text = js ''the cat sat'', strict = True, numBots = 2, profile = Balanced, countdown = 3\<rparr> 9
       \<lparr>state = Running, count = 0, currentWordIndex = 2, currentTypedWord = js ''sat'',
        wordResults = [\<lparr>word = js ''the'', typed = js ''the'', correct = True, timestamp = 5\<rparr>,
                       \<lparr>word = js ''cat'', typed = js ''cat'', correct = True, timestamp = 7\<rparr>],
        startTime = Some 1, endTime = None, bots = [], tick = 0, stats = []\<rparr>) = Finished"
  using final_word_without_separator_finishes
    [of "\<lparr>race_text = js ''the cat sat'', strict = True, numBots = 2, profile = Balanced, countdown = 3\<rparr>"
        "\<lparr>state = Running, count = 0, currentWordIndex = 2, currentTypedWord = js ''sat'',
        wordResults = [\<lparr>word = js ''the'', typed = js ''the'', correct = True, timestamp = 5\<rparr>,
                       \<lparr>word = js ''cat'', typed = js ''cat'', correct = True, timestamp = 7\<rparr>],
        startTime = Some 1, endTime = None, bots = [], tick = 0, stats = []\<rparr>" 9]
  by (simp add: js_def words_of_def segment_def split_ws_Nil split_ws_Cons is_ws_def)

subsection \<open>A passage cut after a space\<close>

lemma long_passage_text:
  "passage_text long_passage =
     ten_words @ ten_words @ ten_words @ ten_words @ ten_words @
     ten_words @ ten_words @ ten_words @ ten_words @ ten_words"
proof -
  have "normal_text long_passage"
    by (simp add: long_passage_def ten_words_def js_def normal_text_def is_ws_def)
  then have "basic_cleanup long_passage = long_passage"
    by (rule basic_cleanup_id)
  moreover have "long_passage \<noteq> []"
    by (simp add: long_passage_def js_def)
  ultimately have "cleanText long_passage no_options = long_passage"
    by (simp add: cleanText_def no_options_def)
  moreover have "length ten_words = 60"
    by (simp add: ten_words_def js_def)
  ultimately show ?thesis
    by (simp add: passage_text_def chunkLen_def long_passage_def)
qed

lemma long_passage_length: "length (passage_text long_passage) = 600"
  by (simp add: long_passage_text) (simp add: ten_words_def js_def)

lemma long_race_words: "words_of long_race = tenfold (tenfold [js ''abcde''])"
  by (simp add: words_of_def long_race_def long_passage_text)
    (simp add: ten_words_def tenfold_def js_def segment_def split_ws_Nil split_ws_Cons is_ws_def)

lemma last_word_typed_correctChars: "race_correctChars long_race last_word_typed = 599"
proof -
  have "completedCorrectChars (wordResults last_word_typed)
      = sum_list (map (\<lambda>w. length w + 1) (butlast (words_of long_race)))"
    by (simp add: last_word_typed_def completedCorrectChars_sum comp_def)
  also have "\<dots> = 594"
    by (simp add: long_race_words tenfold_def js_def)
  finally have a: "completedCorrectChars (wordResults last_word_typed) = 594" .
  have b: "current_word (words_of long_race) 99 = js ''abcde''"
    by (simp add: long_race_words tenfold_def current_word_def nth_append)
  show ?thesis
    by (simp add: race_correctChars_def correctChars_def a currentCorrectChars_loop_eq)
      (simp add: last_word_typed_def b matching_prefix_length_same js_def)
qed

text \<open>
  C10 as stated fails for a passage that \<open>text.slice(0, chunkLen)\<close> cuts just after a
  space: 100 words of five letters, each followed by a space, and more text after them. All
  100 words are words of the race, the text is 600 characters long, and with 99 words
  committed correct and the whole last word typed \<open>correctChars\<close> is 599: the race goes on.
\<close>

theorem final_word_without_separator_counterexample:
  "words_of long_race \<noteq> [] \<and>
   state last_word_typed = Running \<and>
   currentWordIndex last_word_typed = length (words_of long_race) - 1 \<and>
   map word (wordResults last_word_typed) = butlast (words_of long_race) \<and>
   list_all correct (wordResults last_word_typed) \<and>
   currentTypedWord last_word_typed = last (words_of long_race) \<and>
   race_correctChars long_race last_word_typed = 599 \<and>
   length (race_text long_race) = 600 \<and>
   state (finish_detection long_race 3 last_word_typed) = Running"
proof -
  have ws: "words_of long_race \<noteq> []" "length (words_of long_race) = 100"
    "last (words_of long_race) = js ''abcde''"
    by (simp_all add: long_race_words tenfold_def)
  have st: "state last_word_typed = Running" "currentWordIndex last_word_typed = 99"
    "currentTypedWord last_word_typed = js ''abcde''" "bots last_word_typed = []"
    by (simp_all add: last_word_typed_def)
  have res: "map word (wordResults last_word_typed) = butlast (words_of long_race)"
    "list_all correct (wordResults last_word_typed)"
    by (simp_all add: last_word_typed_def comp_def list_all_iff)
  have len: "length (race_text long_race) = 600"
    by (simp add: long_race_def long_passage_length)
  have "state (finish_detection long_race 3 last_word_typed) = Running"
    by (simp add: finish_detection_def Let_def last_word_typed_correctChars len st)
  then show ?thesis
    using ws st res len last_word_typed_correctChars by simp
qed

section \<open>Accuracy\<close>

text \<open>
  C6 as stated fails: with 23 of 40 results correct the quotient 23/40 rounds to a double
  below 0.575, the product with 100 to a double below 57.5, and \<open>Math.round\<close> gives 57,
  while \<open>round(100 * 23 / 40)\<close> is 58.
\<close>

theorem accuracy_counterexample:
  "accuracy (replicate 23 \<lparr>word = [97], typed = [97], correct = True, timestamp = 0\<rparr> @
             replicate 17 \<lparr>word = [97], typed = [98], correct = False, timestamp = 0\<rparr>) = 57 \<and>
   spec_accuracyPercent
            (replicate 23 \<lparr>word = [97], typed = [97], correct = True, timestamp = 0\<rparr> @
             replicate 17 \<lparr>word = [97], typed = [98], correct = False, timestamp = 0\<rparr>) = 58"
  by (simp add: accuracy_def spec_accuracyPercent_def correctWords_def math_round_def
      js_div_def js_mul_def round64_def expo_def bitlen_numeral_eval round_half_even_def Let_def)

text \<open>
  C6 (amended). For every list of fewer than \<open>2 ^ 32\<close> word results (the bound of a
  JavaScript array), \<open>accuracy\<close> is \<open>Math.round\<close> of the double product of the double
  quotient \<open>correctWords / wordResults.length\<close> and 100: an integer between 0 and 100,
  100 when no word is completed, and equal to \<open>round(100 * correct / total)\<close> except
  that it may be one less when \<open>100 * correct / total\<close> lies exactly halfway between two
  integers.
\<close>

theorem accuracy_rounds_double_product:
  assumes "length rs < 2 ^ 32"
  shows "0 \<le> accuracy rs \<and> accuracy rs \<le> 100 \<and>
         (rs = [] \<longrightarrow> accuracy rs = 100) \<and>
         (accuracy rs = spec_accuracyPercent rs \<or>
          (2 * ((100 * int (correctWords rs)) mod int (length rs)) = int (length rs) \<and>
           accuracy rs = spec_accuracyPercent rs - 1))"
proof (cases "rs = []")
  case True
  then show ?thesis by (simp add: accuracy_def spec_accuracyPercent_def)
next
  case False
  define c where "c = correctWords rs"
  define n where "n = length rs"
  define m where "m = js_mul (js_div (real c) (real n)) 100"
  have n: "0 < n" using False by (simp add: n_def)
  have cn: "c \<le> n" by (simp add: c_def n_def correctWords_def)
  have c32: "real c < 2 ^ 32"
  proof -
    have "c < 2 ^ 32" using cn assms by (simp add: n_def)
    then have "real c < real (2 ^ 32)" by (simp only: of_nat_less_iff)
    then show ?thesis by simp
  qed
  have acc: "accuracy rs = math_round m"
    using False by (simp add: accuracy_def m_def c_def n_def)
  have spec: "spec_accuracyPercent rs = \<lfloor>real_of_int (100 * int c) / real_of_int (int n) + 1 / 2\<rfloor>"
    using False by (simp add: spec_accuracyPercent_def math_round_def c_def n_def)
  have Y: "0 \<le> real c / real n" by simp
  have err: "\<bar>m - real c / real n * 100\<bar> \<le> 3 * eps64 * (real c / real n * 100)"
    unfolding m_def by (rule double_quotient_times [OF Y]) simp_all
  have "3 * eps64 * (real c * 100) < 1 / 2"
    using c32 by (simp add: eps64_def)
  then have "3 * eps64 * (real c * 100) / real n < 1 / 2 / real n"
    using n by (intro divide_strict_right_mono) simp_all
  then have small: "3 * eps64 * (real c / real n * 100) < 1 / (2 * real n)"
    by (simp add: field_simps)
  have same: "real c / real n * 100 = real_of_int (100 * int c) / real_of_int (int n)"
    by simp
  have near: "\<bar>m - real_of_int (100 * int c) / real_of_int (int n)\<bar>
      < 1 / (2 * real_of_int (int n))"
    using err small by (simp only: same [symmetric])
  have D: "0 < int n" using n by simp
  have cases: "math_round m = \<lfloor>real_of_int (100 * int c) / real_of_int (int n) + 1 / 2\<rfloor> \<or>
      (2 * ((100 * int c) mod int n) = int n \<and>
       math_round m = \<lfloor>real_of_int (100 * int c) / real_of_int (int n) + 1 / 2\<rfloor> - 1)"
    using math_round_near [OF D near] by blast
  have "0 \<le> js_div (real c) (real n)"
    unfolding js_div_def by (rule round64_nonneg [OF Y])
  then have "0 \<le> js_div (real c) (real n) * 100" by simp
  then have m0: "0 \<le> m"
    unfolding m_def js_mul_def by (rule round64_nonneg)
  have lower: "0 \<le> math_round m"
    using m0 by (simp add: math_round_def)
  have "real c / real n \<le> 1" using cn n by simp
  then have "real_of_int (100 * int c) / real_of_int (int n) + 1 / 2 < 101"
    by (simp only: same [symmetric])
  then have upper: "\<lfloor>real_of_int (100 * int c) / real_of_int (int n) + 1 / 2\<rfloor> \<le> 100"
    by (simp add: floor_le_iff del: of_int_mult of_int_of_nat_eq)
  show ?thesis
    using cases lower upper False unfolding acc spec c_def [symmetric] n_def [symmetric]
    by auto
qed

text \<open>The scenario of the specification: one wrong word, then two correct ones.\<close>

theorem accuracy_rounds_double_product_witness:
  "accuracy [\<lparr>word = [116, 104, 101], typed = [116, 101, 104], correct = False, timestamp = 1\<rparr>,
             \<lparr>word = [99, 97, 116], typed = [99, 97, 116], correct = True, timestamp = 2\<rparr>,
             \<lparr>word = [115, 97, 116], typed = [115, 97, 116], correct = True, timestamp = 3\<rparr>] = 67"
  using accuracy_rounds_double_product
    [of "[\<lparr>word = [116, 104, 101], typed = [116, 101, 104], correct = False, timestamp = 1\<rparr>,
             \<lparr>word = [99, 97, 116], typed = [99, 97, 116], correct = True, timestamp = 2\<rparr>,
             \<lparr>word = [115, 97, 116], typed = [115, 97, 116], correct = True, timestamp = 3\<rparr>]"]
  by (simp add: spec_accuracyPercent_def correctWords_def math_round_def)

section \<open>Words per minute\<close>

lemma eps64_chain:
  "(1 + eps64) / (1 - eps64) * (1 + eps64) * (1 + eps64) \<le> 1 + 5 * eps64"
  "1 - 5 * eps64 \<le> (1 - eps64) / (1 + eps64) * (1 - eps64) * (1 - eps64)"
  "0 < 1 - eps64" "0 < 1 + eps64"
  by (simp_all add: eps64_def)

lemma calcWPM_chain:
  assumes A: "0 \<le> A" and B: "0 < B"
  shows "\<bar>js_mul (js_div (round64 A) (round64 B)) 10 - A / B * 10\<bar> \<le> 5 * eps64 * (A / B * 10)"
proof -
  define a where "a = round64 A"
  define b where "b = round64 B"
  define d where "d = js_div a b"
  define m where "m = js_mul d 10"
  define X where "X = A / B"
  have X: "0 \<le> X" using A B by (simp add: X_def)
  have ab: "A * (1 - eps64) \<le> a" "a \<le> A * (1 + eps64)"
    using round64_rel [OF A] by (simp_all add: a_def)
  have a0: "0 \<le> a" unfolding a_def by (rule round64_nonneg [OF A])
  have bb: "B * (1 - eps64) \<le> b" "b \<le> B * (1 + eps64)"
    using round64_rel [of B] B by (simp_all add: b_def)
  have lowB: "0 < B * (1 - eps64)" using B eps64_chain(3) by simp
  then have b0: "0 < b" using bb(1) by linarith
  have Q0: "0 \<le> a / b" using a0 b0 by simp
  have "0 \<le> A * (1 + eps64)" using A eps64_chain(4) by simp
  then have "a / b \<le> A * (1 + eps64) / (B * (1 - eps64))"
    using ab(2) lowB bb(1) by (rule frac_le)
  then have Qup: "a / b \<le> X * ((1 + eps64) / (1 - eps64))"
    by (simp add: X_def)
  have "A * (1 - eps64) / (B * (1 + eps64)) \<le> a / b"
    using a0 ab(1) b0 bb(2) by (rule frac_le)
  then have Qlo: "X * ((1 - eps64) / (1 + eps64)) \<le> a / b"
    by (simp add: X_def)
  have db: "a / b * (1 - eps64) \<le> d" "d \<le> a / b * (1 + eps64)"
    using round64_rel [OF Q0] by (simp_all add: d_def js_div_def)
  have d0: "0 \<le> d" unfolding d_def js_div_def by (rule round64_nonneg [OF Q0])
  have d10: "0 \<le> d * 10" using d0 by simp
  have mb: "d * 10 * (1 - eps64) \<le> m" "m \<le> d * 10 * (1 + eps64)"
    using round64_rel [OF d10] by (simp_all add: m_def js_mul_def)
  have "d \<le> X * ((1 + eps64) / (1 - eps64)) * (1 + eps64)"
  proof -
    have "a / b * (1 + eps64) \<le> X * ((1 + eps64) / (1 - eps64)) * (1 + eps64)"
      using Qup eps64_chain(4) by (intro mult_right_mono) simp_all
    then show ?thesis using db(2) by linarith
  qed
  then have "d * 10 * (1 + eps64) \<le> X * ((1 + eps64) / (1 - eps64)) * (1 + eps64) * 10 * (1 + eps64)"
    using eps64_chain(4) by (intro mult_right_mono) simp_all
  also have "\<dots> = X * 10 * ((1 + eps64) / (1 - eps64) * (1 + eps64) * (1 + eps64))"
    by simp
  also have "\<dots> \<le> X * 10 * (1 + 5 * eps64)"
    using X eps64_chain(1) by (intro mult_left_mono) simp_all
  finally have "d * 10 * (1 + eps64) \<le> X * 10 * (1 + 5 * eps64)" .
  then have up: "m \<le> X * 10 * (1 + 5 * eps64)" using mb(2) by (rule order_trans [rotated])
  have "X * ((1 - eps64) / (1 + eps64)) * (1 - eps64) \<le> d"
  proof -
    have "X * ((1 - eps64) / (1 + eps64)) * (1 - eps64) \<le> a / b * (1 - eps64)"
      using Qlo eps64_chain(3) by (intro mult_right_mono) simp_all
    then show ?thesis using db(1) by linarith
  qed
  then have step: "X * ((1 - eps64) / (1 + eps64)) * (1 - eps64) * 10 * (1 - eps64) \<le> d * 10 * (1 - eps64)"
    using eps64_chain(3) by (intro mult_right_mono) simp_all
  have "X * 10 * (1 - 5 * eps64)
      \<le> X * 10 * ((1 - eps64) / (1 + eps64) * (1 - eps64) * (1 - eps64))"
    using X eps64_chain(2) by (intro mult_left_mono) simp_all
  also have "\<dots> = X * ((1 - eps64) / (1 + eps64)) * (1 - eps64) * 10 * (1 - eps64)"
    by simp
  also have "\<dots> \<le> d * 10 * (1 - eps64)" by (rule step)
  also have "\<dots> \<le> m" by (rule mb(1))
  finally have lo: "X * 10 * (1 - 5 * eps64) \<le> m" .
  have "\<bar>m - X * 10\<bar> \<le> 5 * eps64 * (X * 10)"
    using up lo by (simp add: abs_le_iff algebra_simps)
  then show ?thesis
    by (simp add: m_def d_def a_def b_def X_def)
qed

text \<open>
  C8 as stated fails at a tie: 3 correct characters in 384 ms are 93.75 words per minute,
  which rounds to 93.8; the double quotient falls just below 93.75 and the code returns
  the double nearest to 93.7.
\<close>

theorem calcWPM_counterexample:
  "calcWPM 3 384 = js_div 937 10 \<and> spec_calcWPM 3 384 = 938 / 10 \<and>
   calcWPM 3 384 < spec_calcWPM 3 384"
  by (simp add: calcWPM_def spec_calcWPM_def math_round_def
      js_div_def js_mul_def round64_def expo_def bitlen_numeral_eval round_half_even_def Let_def)

text \<open>
  C8 (amended). \<open>calcWPM\<close> returns 0 when the elapsed time is 0 and is defined for all
  arguments. For a positive elapsed time and fewer than \<open>2 ^ 32\<close> correct characters it
  returns the double nearest to \<open>R / 10\<close> for an integer \<open>R\<close> with \<open>R / 10\<close> within 0.05 of
  \<open>(correctChars / 5) / (elapsedMs / 60000)\<close>; \<open>R / 10\<close> is that quotient rounded to one
  decimal place, except that it may be the lower neighbour when the quotient lies exactly
  halfway between two one-decimal values.
\<close>

theorem calcWPM_nearest_tenth:
  "calcWPM c 0 = 0 \<and>
   (0 < e \<and> c < 2 ^ 32 \<longrightarrow>
      (\<exists>R. calcWPM c e = js_div (real_of_int R) 10 \<and>
           \<bar>real_of_int R / 10 - (real c / 5) / (real e / 60000)\<bar> \<le> 1 / 20 \<and>
           (real_of_int R / 10 = spec_calcWPM c e \<or>
            (2 * ((120000 * int c) mod int e) = int e \<and>
             real_of_int R / 10 = spec_calcWPM c e - 1 / 10))))"
proof (intro conjI impI)
  show "calcWPM c 0 = 0" by (simp add: calcWPM_def)
next
  assume h: "0 < e \<and> c < 2 ^ 32"
  then have e: "0 < e" and c: "c < 2 ^ 32" by simp_all
  define x where "x = (real c / 5) / (real e / 60000)"
  define m where "m = js_mul (js_div (js_div (real c) 5) (js_div (real e) 60000)) 10"
  define y where "y = real_of_int (120000 * int c) / real_of_int (int e)"
  have xy: "x * 10 = y" using e by (simp add: x_def y_def)
  have wpm: "calcWPM c e = js_div (real_of_int (math_round m)) 10"
    using e by (simp add: calcWPM_def m_def)
  have spec: "spec_calcWPM c e = real_of_int \<lfloor>y + 1 / 2\<rfloor> / 10"
    using e xy by (simp add: spec_calcWPM_def math_round_def x_def)
  have A: "0 \<le> real c / 5" by simp
  have B: "0 < real e / 60000" using e by simp
  have "\<bar>m - real c / 5 / (real e / 60000) * 10\<bar> \<le> 5 * eps64 * (real c / 5 / (real e / 60000) * 10)"
    unfolding m_def js_div_def [of "real c" 5] js_div_def [of "real e" 60000]
    by (rule calcWPM_chain [OF A B])
  then have err: "\<bar>m - y\<bar> \<le> 5 * eps64 * y"
    using xy by (simp only: x_def [symmetric])
  have "real c < real (2 ^ 32)" using c by (simp only: of_nat_less_iff)
  then have "real c < 2 ^ 32" by simp
  then have "5 * eps64 * (120000 * real c) < 1 / 2"
    by (simp add: eps64_def)
  then have "5 * eps64 * (120000 * real c) / real e < 1 / 2 / real e"
    using e by (intro divide_strict_right_mono) simp_all
  then have small: "5 * eps64 * y < 1 / (2 * real_of_int (int e))"
    by (simp add: y_def field_simps)
  have near: "\<bar>m - real_of_int (120000 * int c) / real_of_int (int e)\<bar>
      < 1 / (2 * real_of_int (int e))"
    using err small unfolding y_def by linarith
  have D: "0 < int e" using e by simp
  have alt: "math_round m = \<lfloor>y + 1 / 2\<rfloor> \<or>
      (2 * ((120000 * int c) mod int e) = int e \<and>
       real_of_int \<lfloor>y + 1 / 2\<rfloor> = y + 1 / 2 \<and> math_round m = \<lfloor>y + 1 / 2\<rfloor> - 1)"
    using math_round_near [OF D near] by (simp only: y_def [symmetric])
  have fl: "y - 1 / 2 < real_of_int \<lfloor>y + 1 / 2\<rfloor>" "real_of_int \<lfloor>y + 1 / 2\<rfloor> \<le> y + 1 / 2"
    by linarith+
  from alt have "\<bar>real_of_int (math_round m) / 10 - x\<bar> \<le> 1 / 20 \<and>
      (real_of_int (math_round m) / 10 = spec_calcWPM c e \<or>
       (2 * ((120000 * int c) mod int e) = int e \<and>
        real_of_int (math_round m) / 10 = spec_calcWPM c e - 1 / 10))"
  proof
    assume r: "math_round m = \<lfloor>y + 1 / 2\<rfloor>"
    have "\<bar>real_of_int \<lfloor>y + 1 / 2\<rfloor> - y\<bar> \<le> 1 / 2" using fl by linarith
    then have "\<bar>real_of_int \<lfloor>y + 1 / 2\<rfloor> / 10 - x\<bar> \<le> 1 / 20"
      using xy by linarith
    then show ?thesis using r spec by simp
  next
    assume t: "2 * ((120000 * int c) mod int e) = int e \<and>
       real_of_int \<lfloor>y + 1 / 2\<rfloor> = y + 1 / 2 \<and> math_round m = \<lfloor>y + 1 / 2\<rfloor> - 1"
    then have t1: "2 * ((120000 * int c) mod int e) = int e"
      and t2: "real_of_int \<lfloor>y + 1 / 2\<rfloor> = y + 1 / 2"
      and t3: "math_round m = \<lfloor>y + 1 / 2\<rfloor> - 1" by blast+
    have "real_of_int (math_round m) = real_of_int \<lfloor>y + 1 / 2\<rfloor> - 1"
      by (simp only: t3 of_int_diff of_int_1)
    then have "real_of_int (math_round m) = y - 1 / 2" using t2 by linarith
    then have v: "real_of_int (math_round m) / 10 = x - 1 / 20"
      using xy by linarith
    have "spec_calcWPM c e = (x * 10 + 1 / 2) / 10" by (simp only: spec t2 xy)
    then have w: "spec_calcWPM c e - 1 / 10 = x - 1 / 20" by (simp add: add_divide_distrib)
    have "\<bar>real_of_int (math_round m) / 10 - x\<bar> \<le> 1 / 20" using v by linarith
    moreover have "real_of_int (math_round m) / 10 = spec_calcWPM c e - 1 / 10"
      using v w by linarith
    ultimately show ?thesis using t1 by blast
  qed
  then show "\<exists>R. calcWPM c e = js_div (real_of_int R) 10 \<and>
           \<bar>real_of_int R / 10 - (real c / 5) / (real e / 60000)\<bar> \<le> 1 / 20 \<and>
           (real_of_int R / 10 = spec_calcWPM c e \<or>
            (2 * ((120000 * int c) mod int e) = int e \<and>
             real_of_int R / 10 = spec_calcWPM c e - 1 / 10))"
    using wpm unfolding x_def by blast
qed

text \<open>250 correct characters in one minute are 50 words per minute.\<close>

theorem calcWPM_nearest_tenth_witness:
  "(0::nat) < 60000 \<and> (250::nat) < 2 ^ 32 \<and> calcWPM 250 60000 = 50 \<and> calcWPM 250 0 = 0"
  using calcWPM_nearest_tenth [of 250 60000]
  by (simp add: calcWPM_def math_round_def
      js_div_def js_mul_def round64_def expo_def bitlen_numeral_eval round_half_even_def Let_def)

end
